theory Spec2Isabelle
  imports Main
begin

section \<open>lastfmq: extraction engines and the paginated collector\<close>

text \<open>
  A shallow embedding of \<^verbatim>\<open>lastfmq.go\<close>. Go strings are byte strings (\<open>string\<close>). Go
  \<^verbatim>\<open>int\<close> values are taken in \<open>int\<close>; a theorem that depends on their staying within the
  machine range says so, and the 32-bit page counter of the concurrent collector wraps. A Go
  \<^verbatim>\<open>error\<close> is a value of \<open>error\<close>: the sentinel \<^verbatim>\<open>io.EOF\<close>, an error carrying its message,
  or a run-time panic.
\<close>

datatype error = EOF | Error string | Panic string

subsection \<open>Library functions used by the program\<close>

text \<open>\<^verbatim>\<open>strings.HasPrefix\<close>, \<^verbatim>\<open>strings.Contains\<close> and \<^verbatim>\<open>strconv.Itoa\<close> on byte strings.\<close>

definition HasPrefix :: "string \<Rightarrow> string \<Rightarrow> bool" where
  "HasPrefix s p = (take (length p) s = p)"

fun Contains :: "string \<Rightarrow> string \<Rightarrow> bool" where
  "Contains [] sub = (sub = [])"
| "Contains (c # cs) sub = (HasPrefix (c # cs) sub \<or> Contains cs sub)"

definition digit_char :: "nat \<Rightarrow> char" where
  "digit_char d = char_of (48 + d)"

fun digits :: "nat \<Rightarrow> string" where
  "digits n = (if n < 10 then [digit_char n] else digits (n div 10) @ [digit_char (n mod 10)])"

declare digits.simps [simp del]

definition Itoa :: "int \<Rightarrow> string" where
  "Itoa i = (if i < 0 then CHR ''-'' # digits (nat (- i)) else digits (nat i))"

subsection \<open>The markup tokenizer\<close>

text \<open>
  Modelled from the spec: the tokenizer is the external package \<^verbatim>\<open>golang.org/x/net/html\<close>
  ("a lazy, forward-only sequence of markup events with peekable attributes per tag");
  only the five methods the program calls are modelled, with the behaviour the package
  documents. The unread part of the page is a list of tokens; when it runs out the
  tokenizer reports \<open>read_err\<close> (\<^verbatim>\<open>io.EOF\<close> for a page that ends cleanly) and keeps
  returning the error token. \<^verbatim>\<open>TagName\<close> and \<^verbatim>\<open>Text\<close> hand out the current token's data
  once: a second call on the same token returns the empty string. \<^verbatim>\<open>TagAttr\<close> returns the
  next attribute not yet returned and whether more remain; on a token with no attribute left
  it returns two empty strings and \<open>False\<close>. An end tag carries no attributes.
\<close>

datatype TokenType =
  ErrorToken | TextToken | StartTagToken | EndTagToken | SelfClosingTagToken
  | CommentToken | DoctypeToken

datatype token =
  Text string
  | StartTag string "(string \<times> string) list"
  | EndTag string
  | SelfClosingTag string "(string \<times> string) list"
  | Comment string
  | Doctype string

record Tokenizer =
  unread :: "token list"
  read_err :: error
  tt :: TokenType
  data :: string
  attr :: "(string \<times> string) list"
  nAttrReturned :: nat
  err :: "error option"

definition NewTokenizer :: "token list \<Rightarrow> error \<Rightarrow> Tokenizer" where
  "NewTokenizer body e =
     \<lparr>unread = body, read_err = e, tt = ErrorToken, data = [], attr = [],
      nAttrReturned = 0, err = None\<rparr>"

fun token_type :: "token \<Rightarrow> TokenType" where
  "token_type (Text s) = TextToken"
| "token_type (StartTag n as) = StartTagToken"
| "token_type (EndTag n) = EndTagToken"
| "token_type (SelfClosingTag n as) = SelfClosingTagToken"
| "token_type (Comment s) = CommentToken"
| "token_type (Doctype s) = DoctypeToken"

fun token_data :: "token \<Rightarrow> string" where
  "token_data (Text s) = s"
| "token_data (StartTag n as) = n"
| "token_data (EndTag n) = n"
| "token_data (SelfClosingTag n as) = n"
| "token_data (Comment s) = s"
| "token_data (Doctype s) = s"

fun token_attr :: "token \<Rightarrow> (string \<times> string) list" where
  "token_attr (StartTag n as) = as"
| "token_attr (SelfClosingTag n as) = as"
| "token_attr t = []"

definition Next :: "Tokenizer \<Rightarrow> TokenType \<times> Tokenizer" where
  "Next z =
     (if err z \<noteq> None then (ErrorToken, z\<lparr>tt := ErrorToken, data := []\<rparr>)
      else case unread z of
        [] \<Rightarrow> (ErrorToken, z\<lparr>tt := ErrorToken, data := [], err := Some (read_err z)\<rparr>)
      | t # ts \<Rightarrow>
          (token_type t,
           z\<lparr>unread := ts, tt := token_type t, data := token_data t,
             attr := token_attr t, nAttrReturned := 0\<rparr>))"

definition Err :: "Tokenizer \<Rightarrow> error option" where
  "Err z = err z"

definition is_tag :: "TokenType \<Rightarrow> bool" where
  "is_tag t = (t = StartTagToken \<or> t = EndTagToken \<or> t = SelfClosingTagToken)"

definition TagName :: "Tokenizer \<Rightarrow> string \<times> bool \<times> Tokenizer" where
  "TagName z =
     (if data z \<noteq> [] \<and> is_tag (tt z)
      then (data z, nAttrReturned z < length (attr z), z\<lparr>data := []\<rparr>)
      else ([], False, z))"

definition TagAttr :: "Tokenizer \<Rightarrow> string \<times> string \<times> bool \<times> Tokenizer" where
  "TagAttr z =
     (if nAttrReturned z < length (attr z) \<and> (tt z = StartTagToken \<or> tt z = SelfClosingTagToken)
      then (fst (attr z ! nAttrReturned z), snd (attr z ! nAttrReturned z),
            Suc (nAttrReturned z) < length (attr z),
            z\<lparr>nAttrReturned := Suc (nAttrReturned z)\<rparr>)
      else ([], [], False, z))"

definition is_text :: "TokenType \<Rightarrow> bool" where
  "is_text t = (t = TextToken \<or> t = CommentToken \<or> t = DoctypeToken)"

definition TextOf :: "Tokenizer \<Rightarrow> string \<times> Tokenizer" where
  "TextOf z = (if is_text (tt z) then (data z, z\<lparr>data := []\<rparr>) else ([], z))"

subsection \<open>The attribute iterator\<close>

text \<open>
  \<^verbatim>\<open>iterTagAttr\<close> embeds a pointer to the tokenizer, set to nil once the tokenizer has no
  attribute left; the model keeps the flag \<open>has_tokenizer\<close> and threads the tokenizer itself
  through every call. \<^verbatim>\<open>Attrs\<close> indexes both caches at \<open>pos\<close>; out of range Go panics.
\<close>

record iterTagAttr =
  has_tokenizer :: bool
  pos :: int
  keys :: "string list"
  vals :: "string list"

definition NewIter :: iterTagAttr where
  "NewIter = \<lparr>has_tokenizer = True, pos = - 1, keys = [], vals = []\<rparr>"

definition iter_Next :: "Tokenizer \<Rightarrow> iterTagAttr \<Rightarrow> bool \<times> Tokenizer \<times> iterTagAttr" where
  "iter_Next z i =
     (let i1 = i\<lparr>pos := pos i + 1\<rparr> in
      if has_tokenizer i1 then
        (case TagAttr z of (key, val, moreAttr, z') \<Rightarrow>
           let i2 = (if \<not> moreAttr then i1\<lparr>has_tokenizer := False\<rparr> else i1);
               i3 = i2\<lparr>keys := keys i2 @ [key], vals := vals i2 @ [val]\<rparr>
           in (pos i3 < int (length (keys i3)), z', i3))
      else (pos i1 < int (length (keys i1)), z, i1))"

definition Reset :: "iterTagAttr \<Rightarrow> iterTagAttr" where
  "Reset i = i\<lparr>pos := - 1\<rparr>"

definition Attrs :: "iterTagAttr \<Rightarrow> error + (string \<times> string)" where
  "Attrs i =
     (if 0 \<le> pos i \<and> pos i < int (length (keys i)) \<and> pos i < int (length (vals i))
      then Inr (keys i ! nat (pos i), vals i ! nat (pos i))
      else Inl (Panic ''index out of range''))"

text \<open>
  The quantity that decreases with every successful \<^verbatim>\<open>iter.Next()\<close>: attributes the
  tokenizer still holds (while the iterator reads from it) plus cached pairs ahead of \<open>pos\<close>.
\<close>

definition iter_fuel :: "Tokenizer \<Rightarrow> iterTagAttr \<Rightarrow> nat" where
  "iter_fuel z i =
     (if has_tokenizer i then Suc (length (attr z) - nAttrReturned z) else 0)
     + nat (int (length (keys i)) - pos i)"

lemma iter_Next_fuel:
  "iter_Next z i = (True, z', i') \<Longrightarrow> iter_fuel z' i' < iter_fuel z i"
  by (auto simp: iter_Next_def iter_fuel_def TagAttr_def Let_def split: if_splits)

text \<open>The loop \<^verbatim>\<open>for iter.Next() { key, val := iter.Attrs(); ... }\<close> collecting every pair.\<close>

function iterate :: "Tokenizer \<Rightarrow> iterTagAttr \<Rightarrow>
    error + ((string \<times> string) list \<times> Tokenizer \<times> iterTagAttr)" where
  "iterate z i =
     (case iter_Next z i of
        (False, z', i') \<Rightarrow> Inr ([], z', i')
      | (True, z', i') \<Rightarrow>
          (case Attrs i' of
             Inl e \<Rightarrow> Inl e
           | Inr kv \<Rightarrow>
               (case iterate z' i' of
                  Inl e \<Rightarrow> Inl e
                | Inr (kvs, z'', i'') \<Rightarrow> Inr (kv # kvs, z'', i''))))"
  by pat_completeness auto
termination
  by (relation "measure (\<lambda>(z, i). iter_fuel z i)") (auto dest: iter_Next_fuel [OF sym])

declare iterate.simps [simp del]

subsection \<open>The attribute matcher\<close>

record tagAttr =
  tagName :: string
  attrName :: string
  attrVals :: "string list"

definition TagAttr_rule :: "string \<Rightarrow> string \<Rightarrow> string list \<Rightarrow> tagAttr" where
  "TagAttr_rule tn an avs = \<lparr>tagName = tn, attrName = an, attrVals = avs\<rparr>"

text \<open>
  The innermost loop of \<^verbatim>\<open>containsAttr\<close>: the first accepted value, in the rule's order,
  that \<^verbatim>\<open>strings.Contains\<close> finds in the attribute's value.
\<close>

fun first_contained :: "string \<Rightarrow> string list \<Rightarrow> string option" where
  "first_contained val [] = None"
| "first_contained val (attrVal # rest) =
     (if Contains val attrVal then Some attrVal else first_contained val rest)"

text \<open>
  The loop over the tag's attributes for one rule. \<open>Inr (Some s)\<close> is \<^verbatim>\<open>return s\<close>,
  \<open>Inr None\<close> is the loop running out, which hands over to the next rule.
\<close>

function attr_loop :: "tagAttr \<Rightarrow> Tokenizer \<Rightarrow> iterTagAttr \<Rightarrow>
    error + (string option \<times> Tokenizer \<times> iterTagAttr)" where
  "attr_loop r z i =
     (case iter_Next z i of
        (False, z', i') \<Rightarrow> Inr (None, z', i')
      | (True, z', i') \<Rightarrow>
          (case Attrs i' of
             Inl e \<Rightarrow> Inl e
           | Inr (key, val) \<Rightarrow>
               if key \<noteq> attrName r then attr_loop r z' i'
               else if length (attrVals r) = 0 then Inr (Some (attrName r), z', i')
               else if attrVals r ! 0 = ''*'' then Inr (Some val, z', i')
               else (case first_contained val (attrVals r) of
                       Some attrVal \<Rightarrow> Inr (Some attrVal, z', i')
                     | None \<Rightarrow> attr_loop r z' i')))"
  by pat_completeness auto
termination
  by (relation "measure (\<lambda>(r, z, i). iter_fuel z i)") (auto dest: iter_Next_fuel [OF sym])

declare attr_loop.simps [simp del]

text \<open>The loop over the rules, after \<^verbatim>\<open>TagName()\<close> gave the tag's name and \<open>hasAttr\<close>.\<close>

fun rules_loop :: "string \<Rightarrow> bool \<Rightarrow> tagAttr list \<Rightarrow> Tokenizer \<Rightarrow> iterTagAttr \<Rightarrow>
    error + (string \<times> Tokenizer)" where
  "rules_loop name hasAttr [] z i = Inr ([], z)"
| "rules_loop name hasAttr (r # rs) z i =
     (if tagName r \<noteq> name then rules_loop name hasAttr rs z i
      else if attrName r = [] then Inr (tagName r, z)
      else if \<not> hasAttr then Inr ([], z)
      else (case attr_loop r z (Reset i) of
              Inl e \<Rightarrow> Inl e
            | Inr (Some s, z', i') \<Rightarrow> Inr (s, z')
            | Inr (None, z', i') \<Rightarrow> rules_loop name hasAttr rs z' i'))"

definition containsAttr :: "Tokenizer \<Rightarrow> tagAttr list \<Rightarrow> error + (string \<times> Tokenizer)" where
  "containsAttr tokenizer tagAttrs =
     (case TagName tokenizer of
        (name, hasAttr, z) \<Rightarrow> rules_loop name hasAttr tagAttrs z NewIter)"

lemma attr_loop_stop:
  "iter_Next z i = (False, z', i') \<Longrightarrow> attr_loop r z i = Inr (None, z', i')"
  by (subst attr_loop.simps) simp

lemma attr_loop_step:
  "iter_Next z i = (True, z', i') \<Longrightarrow> Attrs i' = Inr (key, val) \<Longrightarrow>
   attr_loop r z i =
     (if key \<noteq> attrName r then attr_loop r z' i'
      else if attrVals r = [] then Inr (Some (attrName r), z', i')
      else if hd (attrVals r) = ''*'' then Inr (Some val, z', i')
      else (case first_contained val (attrVals r) of
              Some attrVal \<Rightarrow> Inr (Some attrVal, z', i')
            | None \<Rightarrow> attr_loop r z' i'))"
  by (subst attr_loop.simps) (auto simp: hd_conv_nth split: option.splits)

subsection \<open>The attribute matcher as a function of the tag\<close>

text \<open>
  What the matcher computes from the tag's name and attribute list alone. \<open>match_attrs\<close>
  resolves one rule that names an attribute: the attributes with that key are tried in document
  order; no accepted values gives the attribute's name, a first accepted value \<^verbatim>\<open>"*"\<close> gives
  the raw value, otherwise the first accepted value contained in the value, and an attribute
  that contains none hands over to the next attribute with the key.
  \<open>amended_containsAttr\<close> takes the rules in order: a rule for another tag name is passed
  over, a rule with an empty attribute name gives the tag name, and a rule that names an
  attribute ends the evaluation with the empty result when the tag carries no attribute at all
  (the guard on \<^verbatim>\<open>hasAttr\<close>), and otherwise resolves through \<open>match_attrs\<close> or hands
  over to the next rule.
\<close>

fun match_attrs :: "tagAttr \<Rightarrow> (string \<times> string) list \<Rightarrow> string option" where
  "match_attrs r [] = None"
| "match_attrs r ((key, val) # rest) =
     (if key \<noteq> attrName r then match_attrs r rest
      else if attrVals r = [] then Some (attrName r)
      else if hd (attrVals r) = ''*'' then Some val
      else (case first_contained val (attrVals r) of
              Some attrVal \<Rightarrow> Some attrVal
            | None \<Rightarrow> match_attrs r rest))"

fun amended_containsAttr :: "string \<Rightarrow> (string \<times> string) list \<Rightarrow> tagAttr list \<Rightarrow> string" where
  "amended_containsAttr name attrs [] = []"
| "amended_containsAttr name attrs (r # rs) =
     (if tagName r \<noteq> name then amended_containsAttr name attrs rs
      else if attrName r = [] then name
      else if attrs = [] then []
      else (case match_attrs r attrs of
              Some s \<Rightarrow> s
            | None \<Rightarrow> amended_containsAttr name attrs rs))"

text \<open>
  The resolution as the specification words it: the attribute's value is looked up by key,
  only the accepted-value list \<^verbatim>\<open>["*"]\<close> is the wildcard, and a rule that fails, for an absent
  key too, hands over to the next rule.
\<close>

definition spec_rule :: "string \<Rightarrow> (string \<times> string) list \<Rightarrow> tagAttr \<Rightarrow> string option" where
  "spec_rule name attrs r =
     (if tagName r \<noteq> name then None
      else if attrName r = [] then Some name
      else (case map_of attrs (attrName r) of
              None \<Rightarrow> None
            | Some val \<Rightarrow>
                if attrVals r = [] then Some (attrName r)
                else if attrVals r = [''*''] then Some val
                else find (Contains val) (attrVals r)))"

fun spec_containsAttr :: "string \<Rightarrow> (string \<times> string) list \<Rightarrow> tagAttr list \<Rightarrow> string" where
  "spec_containsAttr name attrs [] = []"
| "spec_containsAttr name attrs (r # rs) =
     (case spec_rule name attrs r of
        Some s \<Rightarrow> s
      | None \<Rightarrow> spec_containsAttr name attrs rs)"

text \<open>
  The two states in which a rule's attribute loop starts: the iterator still reads from the
  tokenizer and has cached the first \<open>n\<close> attributes, or it has cached all of them.
\<close>

definition reading :: "(string \<times> string) list \<Rightarrow> nat \<Rightarrow> Tokenizer \<Rightarrow> iterTagAttr \<Rightarrow> bool" where
  "reading attrs n z i =
     (attr z = attrs \<and> (tt z = StartTagToken \<or> tt z = SelfClosingTagToken) \<and>
      nAttrReturned z = n \<and> n < length attrs \<and> has_tokenizer i \<and>
      keys i = map fst (take n attrs) \<and> vals i = map snd (take n attrs))"

definition complete :: "(string \<times> string) list \<Rightarrow> iterTagAttr \<Rightarrow> bool" where
  "complete attrs i = (\<not> has_tokenizer i \<and> keys i = map fst attrs \<and> vals i = map snd attrs)"

subsection \<open>What the matcher leaves of the tokenizer\<close>

text \<open>What a call leaves untouched in the tokenizer: the unread input and the error state.\<close>

definition same_input :: "Tokenizer \<Rightarrow> Tokenizer \<Rightarrow> bool" where
  "same_input z z' = (unread z' = unread z \<and> err z' = err z \<and> read_err z' = read_err z \<and> tt z' = tt z)"

lemma same_input_refl [simp]: "same_input z z"
  by (simp add: same_input_def)

lemma same_input_trans: "same_input z z' \<Longrightarrow> same_input z' z'' \<Longrightarrow> same_input z z''"
  by (simp add: same_input_def)

lemma iter_Next_frame:
  "iter_Next z i = (b, z', i') \<Longrightarrow> length (keys i) = length (vals i) \<Longrightarrow> - 1 \<le> pos i \<Longrightarrow>
   same_input z z' \<and> (tt z \<noteq> TextToken \<or> data z' = data z) \<and> length (keys i') = length (vals i') \<and> 0 \<le> pos i' \<and>
   (b \<longrightarrow> pos i' < int (length (keys i')))"
  by (auto simp: iter_Next_def TagAttr_def Let_def same_input_def split: if_splits)

lemma Attrs_ok:
  "length (keys i) = length (vals i) \<Longrightarrow> 0 \<le> pos i \<Longrightarrow> pos i < int (length (keys i)) \<Longrightarrow>
   \<exists>kv. Attrs i = Inr kv"
  by (simp add: Attrs_def)

lemma attr_loop_frame:
  "length (keys i) = length (vals i) \<Longrightarrow> - 1 \<le> pos i \<Longrightarrow>
   \<exists>res z' i'. attr_loop r z i = Inr (res, z', i') \<and> same_input z z' \<and>
      length (keys i') = length (vals i') \<and> - 1 \<le> pos i'"
proof (induction "iter_fuel z i" arbitrary: z i rule: less_induct)
  case less
  obtain b z1 i1 where nx: "iter_Next z i = (b, z1, i1)"
    by (cases "iter_Next z i") auto
  note fr = iter_Next_frame[OF nx less.prems]
  show ?case
  proof (cases b)
    case False
    with attr_loop_stop[of z i z1 i1 r] nx fr show ?thesis by auto
  next
    case True
    with fr Attrs_ok[of i1] obtain key val where at: "Attrs i1 = Inr (key, val)" by auto
    have nx': "iter_Next z i = (True, z1, i1)" using nx True by simp
    have pre: "length (keys i1) = length (vals i1)" "- 1 \<le> pos i1" using fr by auto
    define L where "L = attr_loop r z1 i1"
    have s: "same_input z z1" using fr by simp
    have "\<exists>res z' i'. L = Inr (res, z', i') \<and> same_input z1 z' \<and>
          length (keys i') = length (vals i') \<and> - 1 \<le> pos i'"
      unfolding L_def using less.hyps[OF iter_Next_fuel[OF nx'] pre] .
    then have rec: "\<exists>res z' i'. L = Inr (res, z', i') \<and> same_input z z' \<and>
          length (keys i') = length (vals i') \<and> - 1 \<le> pos i'"
      using same_input_trans[OF s] by blast
    show ?thesis
      unfolding attr_loop_step[OF nx' at] L_def[symmetric]
      using rec s pre
      by (simp split: option.splits)
  qed
qed


lemma rules_loop_frame:
  "length (keys i) = length (vals i) \<Longrightarrow>
   \<exists>s z'. rules_loop name hasAttr rules z i = Inr (s, z') \<and> same_input z z'"
proof (induction rules arbitrary: z i)
  case Nil
  show ?case by simp
next
  case (Cons r rs)
  have "length (keys (Reset i)) = length (vals (Reset i))" "- 1 \<le> pos (Reset i)"
    using Cons.prems by (simp_all add: Reset_def)
  from attr_loop_frame[OF this, of r z]
  obtain res z1 i1 where al: "attr_loop r z (Reset i) = Inr (res, z1, i1)" "same_input z z1"
      "length (keys i1) = length (vals i1)"
    by (elim exE conjE)
  from Cons.IH[OF al(3), of z1] obtain s z2 where
    r1: "rules_loop name hasAttr rs z1 i1 = Inr (s, z2)" "same_input z1 z2"
    by (elim exE conjE)
  from Cons.IH[OF Cons.prems, of z] obtain s' z3 where
    r2: "rules_loop name hasAttr rs z i = Inr (s', z3)" "same_input z z3"
    by (elim exE conjE)
  show ?case
    using al r1 r2 same_input_trans[OF al(2) r1(2)]
    by (cases res) auto
qed

lemma containsAttr_frame:
  "\<exists>s z'. containsAttr z rules = Inr (s, z') \<and> same_input z z'"
proof -
  obtain name hasAttr z1 where tn: "TagName z = (name, hasAttr, z1)"
    by (cases "TagName z") auto
  then have s: "same_input z z1"
    by (auto simp: TagName_def same_input_def split: if_splits)
  have "length (keys NewIter) = length (vals NewIter)" by (simp add: NewIter_def)
  from rules_loop_frame[OF this, of name hasAttr rules z1]
  obtain r z2 where "rules_loop name hasAttr rules z1 NewIter = Inr (r, z2)" "same_input z1 z2"
    by (elim exE conjE)
  with tn same_input_trans[OF s] show ?thesis
    by (auto simp: containsAttr_def)
qed

lemma rules_loop_no_tag:
  "rules_loop [] False rules z i = Inr ([], z)"
  by (induction rules) auto

lemma containsAttr_no_tag:
  "\<not> is_tag (tt z) \<Longrightarrow> containsAttr z rules = Inr ([], z)"
  by (simp add: containsAttr_def TagName_def rules_loop_no_tag)

lemma Next_unread:
  "Next z = (tok, z') \<Longrightarrow> err z' = None \<Longrightarrow> length (unread z') < length (unread z)"
  by (auto simp: Next_def split: if_splits list.splits)

lemma Next_unread_le:
  "Next z = (tok, z') \<Longrightarrow> length (unread z') \<le> length (unread z)"
  by (auto simp: Next_def split: if_splits list.splits)

lemma TextOf_unread:
  "TextOf z = (s, z') \<Longrightarrow> unread z' = unread z \<and> err z' = err z"
  by (auto simp: TextOf_def split: if_splits)

lemma containsAttr_unread:
  "containsAttr z rules = Inr (s, z') \<Longrightarrow> unread z' = unread z \<and> err z' = err z"
  using containsAttr_frame[of z rules] by (auto simp: same_input_def)

subsection \<open>The tags extractor\<close>

text \<open>The formatted message of a Go error (\<^verbatim>\<open>%v\<close>).\<close>

fun error_msg :: "error \<Rightarrow> string" where
  "error_msg EOF = ''EOF''"
| "error_msg (Error m) = m"
| "error_msg (Panic m) = m"

text \<open>
  A loop body ends by going on to the next iteration (the end of the body and every
  \<^verbatim>\<open>continue\<close>) or by leaving the loop (\<^verbatim>\<open>break\<close>).
\<close>

datatype 'a flow = Continue 'a | Break 'a

record tags_state =
  tags :: "string list"
  similar :: "string list"
  startTags :: bool
  startSimilar :: bool
  numEntites :: int

definition tags_init :: tags_state where
  "tags_init = \<lparr>tags = [], similar = [], startTags = False, startSimilar = False, numEntites = 3\<rparr>"

text \<open>The end-tag case of the loop body of \<^verbatim>\<open>readTags\<close>.\<close>

definition readTags_end :: "Tokenizer \<Rightarrow> tags_state \<Rightarrow> error + (Tokenizer \<times> tags_state) flow" where
  "readTags_end z st =
     (if startTags st \<or> startSimilar st then
        (case containsAttr z [TagAttr_rule ''ol'' [] []] of
           Inl e \<Rightarrow> Inl e
         | Inr (s, z1) \<Rightarrow>
             let st1 = (if s \<noteq> [] then
                          (let a = (if startTags st
                                    then st\<lparr>numEntites := numEntites st - 1, startTags := False\<rparr>
                                    else st)
                           in if startSimilar a
                              then a\<lparr>numEntites := numEntites a - 1, startSimilar := False\<rparr>
                              else a)
                        else st)
             in if numEntites st1 = 0 then Inr (Break (z1, st1)) else Inr (Continue (z1, st1)))
      else Inr (Continue (z, st)))"

text \<open>The start-tag case. \<^verbatim>\<open>Text()\<close> is called once per list that is open.\<close>

definition readTags_start :: "Tokenizer \<Rightarrow> tags_state \<Rightarrow> error + (Tokenizer \<times> tags_state) flow" where
  "readTags_start z st =
     (if startTags st \<or> startSimilar st then
        (case containsAttr z [TagAttr_rule ''a'' ''class'' [''link-block-target'']] of
           Inl e \<Rightarrow> Inl e
         | Inr (s, z1) \<Rightarrow>
             if s \<noteq> [] then
               (case Next z1 of
                  (tok, z2) \<Rightarrow>
                    if tok \<noteq> TextToken then Inr (Continue (z2, st))
                    else
                      (let (z3, st3) =
                             (if startTags st
                              then (case TextOf z2 of (t, z') \<Rightarrow> (z', st\<lparr>tags := tags st @ [t]\<rparr>))
                              else (z2, st));
                           (z4, st4) =
                             (if startSimilar st3
                              then (case TextOf z3 of (t, z') \<Rightarrow> (z', st3\<lparr>similar := similar st3 @ [t]\<rparr>))
                              else (z3, st3))
                       in Inr (Continue (z4, st4))))
             else Inr (Continue (z1, st)))
      else
        (case containsAttr z [TagAttr_rule ''ol'' ''class'' [''big-tags'', ''similar-items-sidebar'']] of
           Inl e \<Rightarrow> Inl e
         | Inr (s, z1) \<Rightarrow>
             if s = ''big-tags'' then Inr (Continue (z1, st\<lparr>startTags := True\<rparr>))
             else if s = ''similar-items-sidebar'' then Inr (Continue (z1, st\<lparr>startSimilar := True\<rparr>))
             else Inr (Continue (z1, st))))"

definition readTags_body :: "TokenType \<Rightarrow> Tokenizer \<Rightarrow> tags_state \<Rightarrow>
    error + (Tokenizer \<times> tags_state) flow" where
  "readTags_body tok z st =
     (if tok = EndTagToken then readTags_end z st
      else if tok = StartTagToken then readTags_start z st
      else Inr (Continue (z, st)))"

fun flow_state :: "'a flow \<Rightarrow> 'a" where
  "flow_state (Continue x) = x"
| "flow_state (Break x) = x"

lemma readTags_body_unread:
  "readTags_body tok z st = Inr fl \<Longrightarrow>
   length (unread (fst (flow_state fl))) \<le> length (unread z)"
  by (auto simp: readTags_body_def readTags_end_def readTags_start_def Let_def
      split: if_splits sum.splits prod.splits
      dest!: containsAttr_unread Next_unread_le TextOf_unread)

function readTags_loop :: "Tokenizer \<Rightarrow> tags_state \<Rightarrow> error + (Tokenizer \<times> tags_state)" where
  "readTags_loop z st =
     (case Next z of
        (tok, z1) \<Rightarrow>
          if Err z1 \<noteq> None then Inr (z1, st)
          else (case readTags_body tok z1 st of
                  Inl e \<Rightarrow> Inl e
                | Inr (Break (z2, st2)) \<Rightarrow> Inr (z2, st2)
                | Inr (Continue (z2, st2)) \<Rightarrow> readTags_loop z2 st2))"
  by pat_completeness auto
termination
proof (relation "measure (\<lambda>(z, st). length (unread z))", goal_cases)
  case 1
  show ?case by simp
next
  case (2 z st tok z1 fl x z2 st2)
  from 2(1) 2(2) have "length (unread z1) < length (unread z)"
    by (auto simp: Err_def dest: Next_unread[OF sym])
  moreover from 2(3,4,5) have "length (unread z2) \<le> length (unread z1)"
    using readTags_body_unread[of tok z1 st fl] by auto
  ultimately show ?case by simp
qed

declare readTags_loop.simps [simp del]

subsection \<open>The wiki extractor\<close>

record Member =
  Name :: string
  YearsActive :: string

record Ref =
  Name :: string
  Reference :: string

record Wiki =
  Members :: "Member list"
  Bio :: "string list"
  Refs :: "Ref list"

definition new_Wiki :: Wiki where
  "new_Wiki = \<lparr>Members = [], Bio = [], Refs = []\<rparr>"

text \<open>
  \<^verbatim>\<open>strings.Split(s, "\n")\<close>: the pieces between the line feeds, one more than there are
  line feeds. \<^verbatim>\<open>strings.TrimSpace\<close> and \<^verbatim>\<open>fmt.Sprintf(refFormat, _)\<close> are library code
  that depends on Unicode tables and on the configured format: the extractor takes them as
  the parameters \<open>trim\<close> and \<open>fmt\<close>.
\<close>

fun Split :: "string \<Rightarrow> char \<Rightarrow> string list" where
  "Split [] c = [[]]"
| "Split (x # xs) c =
     (if x = c then [] # Split xs c
      else (case Split xs c of [] \<Rightarrow> [[x]] | y # ys \<Rightarrow> (x # y) # ys))"

definition line_feed :: char where
  "line_feed = CHR 0x0A"

text \<open>
  The Members section: the loop over the tokens after the heading. The text is trimmed; a
  non-empty one that starts with \<^verbatim>\<open>(\<close> while a member exists becomes the last member's
  years-active string, any other non-empty one a new member.
\<close>

definition members_text :: "(string \<Rightarrow> string) \<Rightarrow> Tokenizer \<Rightarrow> Wiki \<Rightarrow> (Tokenizer \<times> Wiki) flow" where
  "members_text trim z w =
     (case TextOf z of
        (t, z1) \<Rightarrow>
          let txt = trim t in
          if txt = [] then Continue (z1, w)
          else if HasPrefix txt ''('' \<and> length (Members w) > 0
          then Continue (z1, w\<lparr>Members :=
                 (Members w)[length (Members w) - 1 :=
                    (Members w ! (length (Members w) - 1))\<lparr>YearsActive := txt\<rparr>]\<rparr>)
          else Continue (z1, w\<lparr>Members := Members w @ [\<lparr>Member.Name = txt, YearsActive = []\<rparr>]\<rparr>))"

definition members_body :: "(string \<Rightarrow> string) \<Rightarrow> TokenType \<Rightarrow> Tokenizer \<Rightarrow> Wiki \<Rightarrow>
    error + (Tokenizer \<times> Wiki) flow" where
  "members_body trim next z w =
     (if next = EndTagToken then
        (case containsAttr z [TagAttr_rule ''ul'' [] []] of
           Inl e \<Rightarrow> Inl e
         | Inr (s, z1) \<Rightarrow> if s \<noteq> [] then Inr (Break (z1, w)) else Inr (Continue (z1, w)))
      else if next \<noteq> TextToken then Inr (Continue (z, w))
      else Inr (members_text trim z w))"

lemma members_body_unread:
  "members_body trim next z w = Inr fl \<Longrightarrow>
   length (unread (fst (flow_state fl))) \<le> length (unread z)"
  by (auto simp: members_body_def members_text_def Let_def
      split: if_splits sum.splits prod.splits
      dest!: containsAttr_unread TextOf_unread)

function members_loop :: "(string \<Rightarrow> string) \<Rightarrow> Tokenizer \<Rightarrow> Wiki \<Rightarrow> error + (Tokenizer \<times> Wiki)" where
  "members_loop trim z w =
     (case Next z of
        (next, z1) \<Rightarrow>
          if Err z1 \<noteq> None then Inr (z1, w)
          else (case members_body trim next z1 w of
                  Inl e \<Rightarrow> Inl e
                | Inr (Break (z2, w2)) \<Rightarrow> Inr (z2, w2)
                | Inr (Continue (z2, w2)) \<Rightarrow> members_loop trim z2 w2))"
  by pat_completeness auto
termination
proof (relation "measure (\<lambda>(trim, z, w). length (unread z))", goal_cases)
  case 1
  show ?case by simp
next
  case (2 trim z w tok z1 fl x z2 w2)
  from 2(1) 2(2) have "length (unread z1) < length (unread z)"
    by (auto simp: Err_def dest: Next_unread[OF sym])
  moreover from 2(3,4,5) have "length (unread z2) \<le> length (unread z1)"
    using members_body_unread[of trim tok z1 w fl] by auto
  ultimately show ?case by simp
qed

declare members_loop.simps [simp del]


text \<open>
  The Biography section. \<open>href_loop\<close> is the loop that looks for the anchor's \<^verbatim>\<open>href\<close> with
  a fresh iterator: \<open>Some val\<close> when it breaks at that key, \<open>None\<close> when the attributes
  run out and \<^verbatim>\<open>ref\<close> keeps its value.
\<close>

function href_loop :: "Tokenizer \<Rightarrow> iterTagAttr \<Rightarrow> error + (string option \<times> Tokenizer)" where
  "href_loop z i =
     (case iter_Next z i of
        (False, z', i') \<Rightarrow> Inr (None, z')
      | (True, z', i') \<Rightarrow>
          (case Attrs i' of
             Inl e \<Rightarrow> Inl e
           | Inr (key, val) \<Rightarrow>
               if key = ''href'' then Inr (Some val, z') else href_loop z' i'))"
  by pat_completeness auto
termination
  by (relation "measure (\<lambda>(z, i). iter_fuel z i)") (auto dest: iter_Next_fuel [OF sym])

declare href_loop.simps [simp del]

record bio_state =
  bio :: "string list"
  refsSeen :: "string \<rightharpoonup> string"
  quote :: bool
  br :: bool
  bio_txt :: string
  ref :: string

definition bio_init :: bio_state where
  "bio_init = \<lparr>bio = [], refsSeen = Map.empty, quote = False, br = False, bio_txt = [], ref = []\<rparr>"

text \<open>The part of the loop body after the \<^verbatim>\<open>switch\<close>: what a text token does.\<close>

definition readbio_text :: "(string \<Rightarrow> string) \<Rightarrow> TokenType \<Rightarrow> Tokenizer \<Rightarrow> bio_state \<Rightarrow> Wiki \<Rightarrow>
    (Tokenizer \<times> bio_state \<times> Wiki) flow" where
  "readbio_text fmt next z st w =
     (if next \<noteq> TextToken then Continue (z, st, w)
      else
        (case TextOf z of
           (t, z1) \<Rightarrow>
             let st1 = st\<lparr>bio_txt := t\<rparr> in
             if t = [] then Continue (z1, st1, w)
             else
               (let (st2, w2) =
                      (if ref st1 \<noteq> [] \<and> refsSeen st1 t = None
                       then (st1\<lparr>refsSeen := (refsSeen st1)(t \<mapsto> ref st1)\<rparr>,
                             w\<lparr>Refs := Refs w @ [\<lparr>Ref.Name = t, Reference = ref st1\<rparr>]\<rparr>)
                       else (st1, w));
                    st3 = (if br st2 \<and> length (bio st2) > 0
                           then st2\<lparr>bio := (bio st2)[length (bio st2) - 1 :=
                                   bio st2 ! (length (bio st2) - 1) @ [line_feed]]\<rparr>
                           else st2);
                    t' = (if quote st3 then fmt t else t)
                in Continue (z1, st3\<lparr>bio_txt := t', bio := bio st3 @ [t'], br := False,
                                     quote := False, ref := []\<rparr>, w2))))"

definition readbio_body :: "(string \<Rightarrow> string) \<Rightarrow> (string \<Rightarrow> string) \<Rightarrow> TokenType \<Rightarrow> Tokenizer \<Rightarrow>
    bio_state \<Rightarrow> Wiki \<Rightarrow> error + (Tokenizer \<times> bio_state \<times> Wiki) flow" where
  "readbio_body trim fmt next z st w =
     (case containsAttr z [TagAttr_rule ''p'' [] [], TagAttr_rule ''div'' [] [],
                           TagAttr_rule ''br'' [] [], TagAttr_rule ''a'' [] []] of
        Inl e \<Rightarrow> Inl e
      | Inr (s, z1) \<Rightarrow>
          if s = ''div'' then
            (if next = EndTagToken then Inr (Break (z1, st, w))
             else Inr (readbio_text fmt next z1 st w))
          else if s = ''p'' then
            (if next \<noteq> EndTagToken then Inr (Continue (z1, st, w))
             else if length (bio st) > 0
             then Inr (Continue (z1, st\<lparr>bio := []\<rparr>,
                    w\<lparr>Bio := Bio w @ Split (trim (concat (bio st))) line_feed\<rparr>))
             else Inr (Continue (z1, st, w)))
          else if s = ''br'' then Inr (readbio_text fmt next z1 (st\<lparr>br := True\<rparr>) w)
          else if s = ''a'' then
            (if next \<noteq> StartTagToken then Inr (readbio_text fmt next z1 st w)
             else (case href_loop z1 NewIter of
                     Inl e \<Rightarrow> Inl e
                   | Inr (r, z2) \<Rightarrow>
                       Inr (readbio_text fmt next z2
                         (st\<lparr>quote := True, ref := (case r of Some val \<Rightarrow> val | None \<Rightarrow> ref st)\<rparr>) w)))
          else Inr (readbio_text fmt next z1 st w))"

lemma href_loop_frame:
  "length (keys i) = length (vals i) \<Longrightarrow> - 1 \<le> pos i \<Longrightarrow>
   \<exists>r z'. href_loop z i = Inr (r, z') \<and> same_input z z'"
proof (induction "iter_fuel z i" arbitrary: z i rule: less_induct)
  case less
  obtain b z1 i1 where nx: "iter_Next z i = (b, z1, i1)"
    by (cases "iter_Next z i") auto
  note fr = iter_Next_frame[OF nx less.prems]
  show ?case
  proof (cases b)
    case False
    with nx fr show ?thesis by (subst href_loop.simps) auto
  next
    case True
    with fr Attrs_ok[of i1] obtain key val where at: "Attrs i1 = Inr (key, val)" by auto
    have nx': "iter_Next z i = (True, z1, i1)" using nx True by simp
    have pre: "length (keys i1) = length (vals i1)" "- 1 \<le> pos i1" using fr by auto
    have s: "same_input z z1" using fr by simp
    from less.hyps[OF iter_Next_fuel[OF nx'] pre]
    obtain r z' where "href_loop z1 i1 = Inr (r, z')" "same_input z1 z'"
      by (elim exE conjE)
    then show ?thesis
      using s same_input_trans[OF s] by (subst href_loop.simps) (auto simp: nx' at)
  qed
qed

lemma href_loop_unread:
  "href_loop z NewIter = Inr (r, z') \<Longrightarrow> unread z' = unread z \<and> err z' = err z"
  using href_loop_frame[of NewIter z] by (auto simp: NewIter_def same_input_def)

lemma readbio_text_unread:
  "unread (fst (flow_state (readbio_text fmt next z st w))) = unread z"
  by (auto simp: readbio_text_def Let_def split: if_splits prod.splits dest!: TextOf_unread)

lemma readbio_body_unread:
  "readbio_body trim fmt next z st w = Inr fl \<Longrightarrow>
   length (unread (fst (flow_state fl))) \<le> length (unread z)"
  by (auto simp: readbio_body_def Let_def
      readbio_text_unread split: if_splits sum.splits prod.splits
      dest!: containsAttr_unread href_loop_unread)

function readbio_loop :: "(string \<Rightarrow> string) \<Rightarrow> (string \<Rightarrow> string) \<Rightarrow> Tokenizer \<Rightarrow> bio_state \<Rightarrow> Wiki \<Rightarrow>
    error + (Tokenizer \<times> bio_state \<times> Wiki)" where
  "readbio_loop trim fmt z st w =
     (case Next z of
        (next, z1) \<Rightarrow>
          if Err z1 \<noteq> None then Inr (z1, st, w)
          else (case readbio_body trim fmt next z1 st w of
                  Inl e \<Rightarrow> Inl e
                | Inr (Break (z2, st2, w2)) \<Rightarrow> Inr (z2, st2, w2)
                | Inr (Continue (z2, st2, w2)) \<Rightarrow> readbio_loop trim fmt z2 st2 w2))"
  by pat_completeness auto
termination
proof (relation "measure (\<lambda>(trim, fmt, z, st, w). length (unread z))", goal_cases)
  case 1
  show ?case by simp
next
  case (2 trim fmt z st w tok z1 fl x z2 y st2 w2)
  from 2(1) 2(2) have "length (unread z1) < length (unread z)"
    by (auto simp: Err_def dest: Next_unread[OF sym])
  moreover from 2(3-) have "length (unread z2) \<le> length (unread z1)"
    using readbio_body_unread[of trim fmt tok z1 st w fl] by auto
  ultimately show ?case by simp
qed

declare readbio_loop.simps [simp del]


text \<open>The page loop of \<^verbatim>\<open>readWiki\<close>; its state is \<^verbatim>\<open>startWiki\<close> and the result so far.\<close>

definition readWiki_heading :: "(string \<Rightarrow> string) \<Rightarrow> Tokenizer \<Rightarrow> bool \<Rightarrow> Wiki \<Rightarrow>
    error + (Tokenizer \<times> bool \<times> Wiki) flow" where
  "readWiki_heading trim z startWiki w =
     (if \<not> startWiki then Inr (Continue (z, startWiki, w))
      else
        (case Next z of
           (tok, z1) \<Rightarrow>
             if tok \<noteq> TextToken then Inr (Continue (z1, startWiki, w))
             else
               (case TextOf z1 of
                  (title, z2) \<Rightarrow>
                    if title \<noteq> ''Members'' then Inr (Continue (z2, startWiki, w))
                    else (case members_loop trim z2 w of
                            Inl e \<Rightarrow> Inl e
                          | Inr (z3, w3) \<Rightarrow> Inr (Continue (z3, startWiki, w3))))))"

definition readWiki_body :: "(string \<Rightarrow> string) \<Rightarrow> (string \<Rightarrow> string) \<Rightarrow> TokenType \<Rightarrow> Tokenizer \<Rightarrow>
    bool \<Rightarrow> Wiki \<Rightarrow> error + (Tokenizer \<times> bool \<times> Wiki) flow" where
  "readWiki_body trim fmt tok z startWiki w =
     (if tok = EndTagToken then
        (if startWiki then
           (case containsAttr z [TagAttr_rule ''ul'' [] []] of
              Inl e \<Rightarrow> Inl e
            | Inr (s, z1) \<Rightarrow> Inr (Continue (z1, (if s \<noteq> [] then False else startWiki), w)))
         else Inr (Continue (z, startWiki, w)))
      else if tok = StartTagToken then
        (case containsAttr z [TagAttr_rule ''ul'' ''class'' [''factbox''],
                              TagAttr_rule ''div'' ''class'' [''wiki-content''],
                              TagAttr_rule ''h4'' ''class'' [''factbox-heading'']] of
           Inl e \<Rightarrow> Inl e
         | Inr (s, z1) \<Rightarrow>
             if s = ''factbox'' then Inr (Continue (z1, True, w))
             else if s = ''factbox-heading'' then readWiki_heading trim z1 startWiki w
             else if s = ''wiki-content'' then
               (case readbio_loop trim fmt z1 bio_init w of
                  Inl e \<Rightarrow> Inl e
                | Inr (z2, st, w2) \<Rightarrow> Inr (Continue (z2, startWiki, w2)))
             else Inr (Continue (z1, startWiki, w)))
      else Inr (Continue (z, startWiki, w)))"

lemma members_loop_unread:
  "members_loop trim z w = Inr (z', w') \<Longrightarrow> length (unread z') \<le> length (unread z)"
proof (induction trim z w rule: members_loop.induct)
  case (1 trim z w)
  obtain tok z1 where nx: "Next z = (tok, z1)" by (cases "Next z") auto
  note le = Next_unread_le[OF nx]
  show ?case
  proof (cases "Err z1 \<noteq> None")
    case True
    with 1(2) nx le show ?thesis by (subst (asm) members_loop.simps) auto
  next
    case False
    show ?thesis
    proof (cases "members_body trim tok z1 w")
      case (Inl e)
      with 1(2) nx False show ?thesis by (subst (asm) members_loop.simps) auto
    next
      case (Inr fl)
      note b = members_body_unread[OF Inr]
      show ?thesis
      proof (cases fl)
        case (Break x)
        with 1(2) nx False Inr b le show ?thesis
          by (subst (asm) members_loop.simps) auto
      next
        case (Continue x)
        obtain z2 w2 where x: "x = (z2, w2)" by (cases x) auto
        have "members_loop trim z2 w2 = Inr (z', w')"
          using 1(2) nx False Inr Continue x by (subst (asm) members_loop.simps) auto
        from "1.IH"[OF nx[symmetric] _ Inr Continue x[symmetric] this] False
        have "length (unread z') \<le> length (unread z2)" by simp
        with b le Continue x show ?thesis by simp
      qed
    qed
  qed
qed

lemma readbio_loop_unread:
  "readbio_loop trim fmt z st w = Inr (z', st', w') \<Longrightarrow> length (unread z') \<le> length (unread z)"
proof (induction trim fmt z st w rule: readbio_loop.induct)
  case (1 trim fmt z st w)
  obtain tok z1 where nx: "Next z = (tok, z1)" by (cases "Next z") auto
  note le = Next_unread_le[OF nx]
  show ?case
  proof (cases "Err z1 \<noteq> None")
    case True
    with 1(2) nx le show ?thesis by (subst (asm) readbio_loop.simps) auto
  next
    case False
    show ?thesis
    proof (cases "readbio_body trim fmt tok z1 st w")
      case (Inl e)
      with 1(2) nx False show ?thesis by (subst (asm) readbio_loop.simps) auto
    next
      case (Inr fl)
      note b = readbio_body_unread[OF Inr]
      show ?thesis
      proof (cases fl)
        case (Break x)
        with 1(2) nx False Inr b le show ?thesis
          by (subst (asm) readbio_loop.simps) auto
      next
        case (Continue x)
        obtain z2 st2 w2 where x: "x = (z2, st2, w2)" by (cases x) auto
        have "readbio_loop trim fmt z2 st2 w2 = Inr (z', st', w')"
          using 1(2) nx False Inr Continue x by (subst (asm) readbio_loop.simps) auto
        from "1.IH"[OF nx[symmetric] _ Inr Continue x[symmetric] refl this] False
        have "length (unread z') \<le> length (unread z2)" by simp
        with b le Continue x show ?thesis by simp
      qed
    qed
  qed
qed

lemma readWiki_body_unread:
  "readWiki_body trim fmt tok z startWiki w = Inr fl \<Longrightarrow>
   length (unread (fst (flow_state fl))) \<le> length (unread z)"
  by (auto simp: readWiki_body_def readWiki_heading_def Let_def
      split: if_splits sum.splits prod.splits
      dest!: containsAttr_unread Next_unread_le TextOf_unread members_loop_unread
        readbio_loop_unread)

function readWiki_loop :: "(string \<Rightarrow> string) \<Rightarrow> (string \<Rightarrow> string) \<Rightarrow> Tokenizer \<Rightarrow> bool \<Rightarrow> Wiki \<Rightarrow>
    error + (Tokenizer \<times> bool \<times> Wiki)" where
  "readWiki_loop trim fmt z startWiki w =
     (case Next z of
        (tok, z1) \<Rightarrow>
          if Err z1 \<noteq> None then Inr (z1, startWiki, w)
          else (case readWiki_body trim fmt tok z1 startWiki w of
                  Inl e \<Rightarrow> Inl e
                | Inr (Break (z2, s2, w2)) \<Rightarrow> Inr (z2, s2, w2)
                | Inr (Continue (z2, s2, w2)) \<Rightarrow> readWiki_loop trim fmt z2 s2 w2))"
  by pat_completeness auto
termination
proof (relation "measure (\<lambda>(trim, fmt, z, s, w). length (unread z))", goal_cases)
  case 1
  show ?case by simp
next
  case (2 trim fmt z s w tok z1 fl x z2 y s2 w2)
  from 2(1) 2(2) have "length (unread z1) < length (unread z)"
    by (auto simp: Err_def dest: Next_unread[OF sym])
  moreover from 2(3-) have "length (unread z2) \<le> length (unread z1)"
    using readWiki_body_unread[of trim fmt tok z1 s w fl] by auto
  ultimately show ?case by simp
qed

declare readWiki_loop.simps [simp del]

text \<open>
  The HTTP side. A response carries what the program reads of it: the status, the header as
  \<^verbatim>\<open>%+v\<close> prints it, the query of the URL that was finally served, and the body, here
  already as the tokens the tokenizer will deliver and the error its reader ends with.
  The client is the program's environment: whether a request can be built for a URL, what
  \<^verbatim>\<open>Do\<close> or \<^verbatim>\<open>http.Get\<close> returns for it, and how \<^verbatim>\<open>fmt\<close> prints an error that has no
  verb in the format.
\<close>

record Response =
  StatusCode :: int
  Status :: string
  Header :: string
  Query :: "(string \<times> string) list"
  Body :: "token list"
  BodyErr :: error

record http_env =
  NewRequest :: "string \<Rightarrow> error option"
  Do :: "string \<Rightarrow> error + Response"
  extra :: "error \<Rightarrow> string"

definition StatusOK :: int where
  "StatusOK = 200"

definition wikiURL :: "string \<Rightarrow> string" where
  "wikiURL bandName = ''https://www.last.fm/music/'' @ bandName @ ''/+wiki''"

definition tagsURL :: "string \<Rightarrow> string" where
  "tagsURL bandName = ''https://www.last.fm/music/'' @ bandName @ ''/+tags''"

definition readWiki :: "http_env \<Rightarrow> (string \<Rightarrow> string) \<Rightarrow> (string \<Rightarrow> string) \<Rightarrow> string \<Rightarrow> error + Wiki" where
  "readWiki env trim fmt bandName =
     (if bandName = [] then Inl (Error ''read_wiki: band name is required'')
      else case NewRequest env (wikiURL bandName) of
        Some e \<Rightarrow> Inl (Error (''read_wiki: new_request_with_context'' @ extra env e))
      | None \<Rightarrow>
          (case Do env (wikiURL bandName) of
             Inl e \<Rightarrow> Inl (Error (''read_wiki: http_get: '' @ error_msg e))
           | Inr resp \<Rightarrow>
               if StatusCode resp \<noteq> StatusOK
               then Inl (Error (''read_wiki: status: '' @ Status resp @ '' ('' @ Header resp @ '')''))
               else (case readWiki_loop trim fmt (NewTokenizer (Body resp) (BodyErr resp)) False new_Wiki of
                       Inl e \<Rightarrow> Inl e
                     | Inr (z, startWiki, wiki) \<Rightarrow>
                         (case Err z of
                            Some e \<Rightarrow>
                              if e \<noteq> EOF then Inl (Error (''read_wiki: tokenizer: '' @ error_msg e))
                              else Inr wiki
                          | None \<Rightarrow> Inr wiki))))"

definition readTags :: "http_env \<Rightarrow> string \<Rightarrow> error + (string list \<times> string list)" where
  "readTags env bandName =
     (if bandName = [] then Inl (Error ''read_tags: band name is required'')
      else case Do env (tagsURL bandName) of
        Inl e \<Rightarrow> Inl (Error (''read_tags: http_get: '' @ error_msg e))
      | Inr resp \<Rightarrow>
          if StatusCode resp \<noteq> StatusOK
          then Inl (Error (''read_tags: status: '' @ Status resp))
          else (case readTags_loop (NewTokenizer (Body resp) (BodyErr resp)) tags_init of
                  Inl e \<Rightarrow> Inl e
                | Inr (z, st) \<Rightarrow>
                    (case Err z of
                       Some e \<Rightarrow>
                         if e \<noteq> EOF then Inl (Error (''read_tags: tokenizer: '' @ error_msg e))
                         else Inr (tags st, similar st)
                     | None \<Rightarrow> Inr (tags st, similar st))))"

subsection \<open>The wiki sections as functions of their tokens\<close>

text \<open>
  The Members section as a function of its tokens. \<open>section_texts\<close> are the text tokens up to
  the first closing \<^verbatim>\<open>ul\<close> (or the end of the page), \<open>after_section\<close> the tokens behind that
  closing tag. \<open>attach\<close> is what one trimmed, non-empty fragment does to the member list, in
  the words of the amended claim; \<open>spec_attach\<close> is the same in the words of the
  specification's property 3, which drops a parenthesized fragment that precedes any member.
\<close>

fun section_texts :: "token list \<Rightarrow> string list" where
  "section_texts [] = []"
| "section_texts (Text s # ts) = s # section_texts ts"
| "section_texts (EndTag n # ts) = (if n = ''ul'' then [] else section_texts ts)"
| "section_texts (t # ts) = section_texts ts"

fun after_section :: "token list \<Rightarrow> token list" where
  "after_section [] = []"
| "after_section (EndTag n # ts) = (if n = ''ul'' then ts else after_section ts)"
| "after_section (t # ts) = after_section ts"

definition fragments :: "(string \<Rightarrow> string) \<Rightarrow> token list \<Rightarrow> string list" where
  "fragments trim ts = filter (\<lambda>s. s \<noteq> []) (map trim (section_texts ts))"

definition attach :: "Member list \<Rightarrow> string \<Rightarrow> Member list" where
  "attach ms s =
     (if HasPrefix s ''('' \<and> ms \<noteq> []
      then butlast ms @ [(last ms)\<lparr>YearsActive := s\<rparr>]
      else ms @ [\<lparr>Member.Name = s, YearsActive = []\<rparr>])"

definition spec_attach :: "Member list \<Rightarrow> string \<Rightarrow> Member list" where
  "spec_attach ms s =
     (if HasPrefix s ''('' then
        (if ms \<noteq> [] then butlast ms @ [(last ms)\<lparr>YearsActive := s\<rparr>] else ms)
      else ms @ [\<lparr>Member.Name = s, YearsActive = []\<rparr>])"

text \<open>
  The Biography section as a function of its tokens. \<open>pending_refs\<close> lists the non-empty
  texts of the section, up to the first closing \<^verbatim>\<open>div\<close>, each with the reference target
  that is pending when it is read: the first \<^verbatim>\<open>href\<close> of the latest opening \<^verbatim>\<open>a\<close> tag that
  has one, and nothing once a text has taken it. \<open>first_wins\<close> keeps, of the texts with a
  target, the first occurrence of each text.
\<close>

fun pending_refs :: "string \<Rightarrow> token list \<Rightarrow> (string \<times> string) list" where
  "pending_refs r [] = []"
| "pending_refs r (Text s # ts) =
     (if s = [] then pending_refs r ts else (s, r) # pending_refs [] ts)"
| "pending_refs r (StartTag n as # ts) =
     (if n = ''a'' then pending_refs (case map_of as ''href'' of Some h \<Rightarrow> h | None \<Rightarrow> r) ts
      else pending_refs r ts)"
| "pending_refs r (EndTag n # ts) = (if n = ''div'' then [] else pending_refs r ts)"
| "pending_refs r (t # ts) = pending_refs r ts"

fun first_wins :: "string list \<Rightarrow> (string \<times> string) list \<Rightarrow> Ref list" where
  "first_wins seen [] = []"
| "first_wins seen ((s, h) # ps) =
     (if h = [] \<or> s \<in> set seen then first_wins seen ps
      else \<lparr>Ref.Name = s, Reference = h\<rparr> # first_wins (s # seen) ps)"

text \<open>The rules of the Biography loop's call of the matcher.\<close>

definition bio_rules :: "tagAttr list" where
  "bio_rules = [TagAttr_rule ''p'' [] [], TagAttr_rule ''div'' [] [],
                TagAttr_rule ''br'' [] [], TagAttr_rule ''a'' [] []]"

text \<open>
  An instance of \<open>trim\<close> for concrete pages: \<^verbatim>\<open>strings.TrimSpace\<close> as it acts on ASCII
  text, where the white space is tab, line feed, vertical tab, form feed, carriage return and
  space.
\<close>

definition TrimSpace_ascii :: "string \<Rightarrow> string" where
  "TrimSpace_ascii s =
     (let sp = (\<lambda>c. c \<in> set [CHR 0x09, CHR 0x0A, CHR 0x0B, CHR 0x0C, CHR 0x0D, CHR '' ''])
      in rev (dropWhile sp (rev (dropWhile sp s))))"

subsection \<open>The similar-artists page\<close>

definition similarArtistsPageURL :: "string \<Rightarrow> int \<Rightarrow> string" where
  "similarArtistsPageURL bandName pageNum =
     ''https://www.last.fm/music/'' @ bandName @ ''/+similar?page='' @ Itoa pageNum"

text \<open>\<^verbatim>\<open>url.Values.Get\<close>: the first value of the key, the empty string when there is none.\<close>

definition query_Get :: "(string \<times> string) list \<Rightarrow> string \<Rightarrow> string" where
  "query_Get q k = (case map_of q k of Some v \<Rightarrow> v | None \<Rightarrow> [])"

text \<open>The loop body of \<^verbatim>\<open>readSimilarArtistsPage\<close>, on the list so far and \<^verbatim>\<open>startSimilar\<close>.\<close>

definition page_end :: "Tokenizer \<Rightarrow> string list \<Rightarrow> bool \<Rightarrow>
    error + (Tokenizer \<times> string list \<times> bool) flow" where
  "page_end z similar' startSimilar' =
     (if startSimilar' then
        (case containsAttr z [TagAttr_rule ''ol'' [] []] of
           Inl e \<Rightarrow> Inl e
         | Inr (s, z1) \<Rightarrow>
             Inr (Continue (z1, similar',
                    (if s \<noteq> [] then (if startSimilar' then False else startSimilar')
                     else startSimilar'))))
      else Inr (Continue (z, similar', startSimilar')))"

definition page_start :: "Tokenizer \<Rightarrow> string list \<Rightarrow> bool \<Rightarrow>
    error + (Tokenizer \<times> string list \<times> bool) flow" where
  "page_start z similar' startSimilar' =
     (if startSimilar' then
        (case containsAttr z [TagAttr_rule ''a'' ''class'' [''link-block-target'']] of
           Inl e \<Rightarrow> Inl e
         | Inr (s, z1) \<Rightarrow>
             if s \<noteq> [] then
               (case Next z1 of
                  (tok, z2) \<Rightarrow>
                    if tok \<noteq> TextToken then Inr (Continue (z2, similar', startSimilar'))
                    else if startSimilar'
                    then (case TextOf z2 of
                            (t, z3) \<Rightarrow> Inr (Continue (z3, similar' @ [t], startSimilar')))
                    else Inr (Continue (z2, similar', startSimilar')))
             else Inr (Continue (z1, similar', startSimilar')))
      else
        (case containsAttr z [TagAttr_rule ''ol'' ''class'' [''similar-artists'']] of
           Inl e \<Rightarrow> Inl e
         | Inr (s, z1) \<Rightarrow>
             Inr (Continue (z1, similar', (if s \<noteq> [] then True else startSimilar')))))"

definition page_body :: "TokenType \<Rightarrow> Tokenizer \<Rightarrow> string list \<Rightarrow> bool \<Rightarrow>
    error + (Tokenizer \<times> string list \<times> bool) flow" where
  "page_body tok z similar' startSimilar' =
     (if tok = EndTagToken then page_end z similar' startSimilar'
      else if tok = StartTagToken then page_start z similar' startSimilar'
      else Inr (Continue (z, similar', startSimilar')))"

lemma page_body_unread:
  "page_body tok z similar' startSimilar' = Inr fl \<Longrightarrow>
   length (unread (fst (flow_state fl))) \<le> length (unread z)"
  by (auto simp: page_body_def page_end_def page_start_def Let_def
      split: if_splits sum.splits prod.splits
      dest!: containsAttr_unread Next_unread_le TextOf_unread)

function page_loop :: "Tokenizer \<Rightarrow> string list \<Rightarrow> bool \<Rightarrow>
    error + (Tokenizer \<times> string list \<times> bool)" where
  "page_loop z similar' startSimilar' =
     (case Next z of
        (tok, z1) \<Rightarrow>
          if Err z1 \<noteq> None then Inr (z1, similar', startSimilar')
          else (case page_body tok z1 similar' startSimilar' of
                  Inl e \<Rightarrow> Inl e
                | Inr (Break (z2, similar2, start2)) \<Rightarrow> Inr (z2, similar2, start2)
                | Inr (Continue (z2, similar2, start2)) \<Rightarrow> page_loop z2 similar2 start2))"
  by pat_completeness auto
termination
proof (relation "measure (\<lambda>(z, similar', s). length (unread z))", goal_cases)
  case 1
  show ?case by simp
next
  case (2 z similar' s tok z1 fl x z2 y similar2 start2)
  from 2(1) 2(2) have "length (unread z1) < length (unread z)"
    by (auto simp: Err_def dest: Next_unread[OF sym])
  moreover from 2(3-) have "length (unread z2) \<le> length (unread z1)"
    using page_body_unread[of tok z1 similar' s fl] by auto
  ultimately show ?case by simp
qed

declare page_loop.simps [simp del]

text \<open>
  \<^verbatim>\<open>readSimilarArtistsPage\<close>. The page check stands between the status check and the
  tokenizer. The error after the loop prints the variable \<^verbatim>\<open>err\<close> of the request, which is
  nil there.
\<close>

definition readSimilarArtistsPage :: "http_env \<Rightarrow> string \<Rightarrow> int \<Rightarrow> error + string list" where
  "readSimilarArtistsPage env bandName pageNum =
     (if bandName = []
      then Inl (Error (''read_similar_artists: page '' @ Itoa pageNum @ '': band name is required''))
      else case NewRequest env (similarArtistsPageURL bandName pageNum) of
        Some e \<Rightarrow>
          Inl (Error (''read_similar_artists: page '' @ Itoa pageNum
                 @ '': new_request_with_context: '' @ error_msg e))
      | None \<Rightarrow>
          (case Do env (similarArtistsPageURL bandName pageNum) of
             Inl e \<Rightarrow>
               Inl (Error (''read_similar_artists: page '' @ Itoa pageNum
                      @ '': http_get: '' @ error_msg e))
           | Inr resp \<Rightarrow>
               if StatusCode resp \<noteq> StatusOK
               then Inl (Error (''read_similar_artists: status: '' @ Status resp
                           @ '' ('' @ Header resp @ '')''))
               else if query_Get (Query resp) ''page'' \<noteq> Itoa pageNum then Inr []
               else (case page_loop (NewTokenizer (Body resp) (BodyErr resp)) [] False of
                       Inl e \<Rightarrow> Inl e
                     | Inr (z, similar', startSimilar') \<Rightarrow>
                         if Err z \<noteq> Some EOF
                         then Inl (Error (''read_similar_artists: page '' @ Itoa pageNum
                                     @ '': tokenizer: <nil>''))
                         else Inr similar')))"

subsection \<open>The sequential collector\<close>

text \<open>
  The loop of \<^verbatim>\<open>readSimilarArtists\<close> from page \<open>i\<close> to page \<open>lim\<close>. \<open>page\<close> is what
  \<^verbatim>\<open>readSimilarArtistsPage\<close> returns for a page number; the pages requested so far are kept
  in \<open>requested\<close>, in the order of the calls, so that the result tells which pages were
  fetched. The page numbers are Go \<^verbatim>\<open>int\<close>s and are taken in \<open>int\<close>: the model is the program
  as long as \<^verbatim>\<open>1 + offset\<close>, \<^verbatim>\<open>pages + offset\<close> and the last increment of \<open>i\<close> stay within 64
  bits (\<open>in_int_range\<close>).
\<close>

definition in_int_range :: "int \<Rightarrow> bool" where
  "in_int_range i = (- (2 ^ 63) \<le> i \<and> i < 2 ^ 63)"

function collect_loop :: "(int \<Rightarrow> error + string list) \<Rightarrow> int \<Rightarrow> int \<Rightarrow> int list \<Rightarrow> string list \<Rightarrow>
    int list \<times> (error + string list)" where
  "collect_loop page i lim requested ret =
     (if i \<le> lim then
        (case page i of
           Inl e \<Rightarrow> (requested @ [i], Inl (Error (''read_similar_artists: '' @ error_msg e)))
         | Inr similar' \<Rightarrow> collect_loop page (i + 1) lim (requested @ [i]) (ret @ similar'))
      else (requested, Inr ret))"
  by pat_completeness auto
termination
  by (relation "measure (\<lambda>(page, i, lim, requested, ret). nat (lim + 1 - i))") auto

declare collect_loop.simps [simp del]

definition readSimilarArtists :: "http_env \<Rightarrow> string \<Rightarrow> int \<Rightarrow> int \<Rightarrow> int list \<times> (error + string list)" where
  "readSimilarArtists env bandName pages offset =
     collect_loop (readSimilarArtistsPage env bandName) (1 + offset) (pages + offset) [] []"


subsection \<open>The concurrent collector\<close>

text \<open>
  \<^verbatim>\<open>readSimilarArtistsAsync\<close> as a transition system. A worker goroutine is about to claim a
  page (\<open>Ready\<close>), holds an error it is sending on \<^verbatim>\<open>errC\<close>, holds a page it is sending on
  \<^verbatim>\<open>outC\<close>, or has returned. \<open>page\<close> is what \<^verbatim>\<open>readSimilarArtistsPage\<close> returns for a
  page number, \<open>workersNum\<close> the number of workers. The state has the shared counter, the
  workers, the buffer of \<^verbatim>\<open>errC\<close> (capacity one), and the variables of the caller's loop;
  \<open>outcome\<close> is set when the call returns or panics. An event is one step of one goroutine, or one communication:
  \<^item> \<open>Claim i\<close>: worker \<open>i\<close> adds one to the counter, leaves its loop when the number is
    beyond \<^verbatim>\<open>pages+offset\<close>, and otherwise fetches the page: an error is to be sent, an empty
    list makes the worker return, a non-empty list is to be sent;
  \<^item> \<open>SendError i\<close>: worker \<open>i\<close> puts its error into the buffer of \<^verbatim>\<open>errC\<close>, which must have
    room, and goes on to claim;
  \<^item> \<open>RecvError\<close>: the caller's \<^verbatim>\<open>select\<close> takes the error out of the buffer and appends it;
  \<^item> \<open>RecvOut i\<close>: the caller's \<^verbatim>\<open>select\<close> receives the page worker \<open>i\<close> is sending, adds
    its length to \<^verbatim>\<open>retSize\<close> and copies it into its slot of \<^verbatim>\<open>ret\<close>;
  \<^item> \<open>Done\<close>: every worker has returned, the wait group lets the signal through and the
    caller's \<^verbatim>\<open>select\<close> takes it: the call returns.
  \<^verbatim>\<open>select\<close> chooses among the communications that can proceed, so \<open>Done\<close> and \<open>RecvError\<close>
  are both possible when every worker has returned and an error is still in the buffer. Which
  events happen in which order is the schedule; \<open>run\<close> follows a schedule and is \<open>None\<close>
  when the schedule names an event that cannot happen.
\<close>

datatype worker = Ready | SendingErr error | SendingOut int "string list" | Returned

datatype event = Claim nat | SendError nat | RecvError | RecvOut nat | Done

record async_state =
  pageCount :: int
  workers :: "worker list"
  errC :: "error list"
  errs :: "error list"
  ret :: "string list"
  retSize :: int
  outcome :: "(error + string list) option"

definition pageSize :: int where
  "pageSize = 10"

text \<open>\<^verbatim>\<open>atomic.Int32.Add(1)\<close>: the counter is 32 bits wide and wraps.\<close>

definition Add1 :: "int \<Rightarrow> int" where
  "Add1 c = (if c + 1 > 2147483647 then c + 1 - 4294967296 else c + 1)"

text \<open>
  \<^verbatim>\<open>copy(ret[(page-1)*pageSize : page*pageSize], artists)\<close>: the slice expression panics
  unless \<open>0 \<le> low \<le> high \<le> cap(ret)\<close>; \<^verbatim>\<open>copy\<close> writes as many elements as the shorter of
  the two slices has.
\<close>

definition copy_page :: "string list \<Rightarrow> int \<Rightarrow> string list \<Rightarrow> error + string list" where
  "copy_page r p artists =
     (let low = (p - 1) * pageSize; high = p * pageSize in
      if 0 \<le> low \<and> low \<le> high \<and> high \<le> int (length r)
      then (let n = min (nat (high - low)) (length artists)
            in Inr (take (nat low) r @ take n artists @ drop (nat low + n) r))
      else Inl (Panic ''slice bounds out of range''))"

text \<open>The end of the call: the first error received, or \<^verbatim>\<open>ret[:retSize]\<close>.\<close>

definition finish :: "async_state \<Rightarrow> error + string list" where
  "finish s =
     (if length (errs s) > 0
      then Inl (Error (''read_similar_artists: '' @ error_msg (errs s ! 0)))
      else if 0 \<le> retSize s \<and> retSize s \<le> int (length (ret s))
      then Inr (take (nat (retSize s)) (ret s))
      else Inl (Panic ''slice bounds out of range''))"

definition async_init :: "int \<Rightarrow> int \<Rightarrow> async_state" where
  "async_init workersNum pages =
     \<lparr>pageCount = 0, workers = replicate (nat workersNum) Ready, errC = [], errs = [],
      ret = replicate (nat (pageSize * pages)) [], retSize = 0,
      outcome = (if pageSize * pages < 0 then Some (Inl (Panic ''makeslice: len out of range''))
                 else None)\<rparr>"

definition claim :: "(int \<Rightarrow> error + string list) \<Rightarrow> int \<Rightarrow> int \<Rightarrow> nat \<Rightarrow> async_state \<Rightarrow>
    async_state" where
  "claim page pages offset i s =
     (let pageNum = Add1 (pageCount s); s1 = s\<lparr>pageCount := pageNum\<rparr> in
      if pageNum \<le> pages + offset then
        (case page pageNum of
           Inl e \<Rightarrow> s1\<lparr>workers := (workers s)[i := SendingErr e]\<rparr>
         | Inr similar' \<Rightarrow>
             if length similar' = 0 then s1\<lparr>workers := (workers s)[i := Returned]\<rparr>
             else s1\<lparr>workers := (workers s)[i := SendingOut pageNum similar']\<rparr>)
      else s1\<lparr>workers := (workers s)[i := Returned]\<rparr>)"

definition receive :: "nat \<Rightarrow> int \<Rightarrow> string list \<Rightarrow> async_state \<Rightarrow> async_state" where
  "receive i p artists s =
     (let s1 = s\<lparr>retSize := retSize s + int (length artists), workers := (workers s)[i := Ready]\<rparr> in
      case copy_page (ret s) p artists of
        Inl e \<Rightarrow> s1\<lparr>outcome := Some (Inl e)\<rparr>
      | Inr r \<Rightarrow> s1\<lparr>ret := r\<rparr>)"

fun step :: "(int \<Rightarrow> error + string list) \<Rightarrow> int \<Rightarrow> int \<Rightarrow> event \<Rightarrow> async_state \<Rightarrow>
    async_state option" where
  "step page pages offset (Claim i) s =
     (if outcome s = None \<and> i < length (workers s) \<and> workers s ! i = Ready
      then Some (claim page pages offset i s) else None)"
| "step page pages offset (SendError i) s =
     (if outcome s = None \<and> i < length (workers s) \<and> length (errC s) < 1
      then (case workers s ! i of
              SendingErr e \<Rightarrow> Some (s\<lparr>errC := errC s @ [e], workers := (workers s)[i := Ready]\<rparr>)
            | _ \<Rightarrow> None)
      else None)"
| "step page pages offset RecvError s =
     (if outcome s = None
      then (case errC s of
              [] \<Rightarrow> None
            | e # rest \<Rightarrow> Some (s\<lparr>errC := rest, errs := errs s @ [e]\<rparr>))
      else None)"
| "step page pages offset (RecvOut i) s =
     (if outcome s = None \<and> i < length (workers s)
      then (case workers s ! i of
              SendingOut p artists \<Rightarrow> Some (receive i p artists s)
            | _ \<Rightarrow> None)
      else None)"
| "step page pages offset Done s =
     (if outcome s = None \<and> list_all (\<lambda>w. w = Returned) (workers s)
      then Some (s\<lparr>outcome := Some (finish s)\<rparr>) else None)"

fun run :: "(int \<Rightarrow> error + string list) \<Rightarrow> int \<Rightarrow> int \<Rightarrow> event list \<Rightarrow> async_state \<Rightarrow>
    async_state option" where
  "run page pages offset [] s = Some s"
| "run page pages offset (e # es) s =
     (case step page pages offset e s of
        None \<Rightarrow> None
      | Some s' \<Rightarrow> run page pages offset es s')"

text \<open>What the call returns under a schedule: \<open>None\<close> when the schedule cannot happen or
  does not bring the call to its end.\<close>

definition readSimilarArtistsAsync :: "http_env \<Rightarrow> string \<Rightarrow> int \<Rightarrow> int \<Rightarrow> int \<Rightarrow>
    event list \<Rightarrow> (error + string list) option" where
  "readSimilarArtistsAsync env bandName workersNum pages offset schedule =
     (case run (readSimilarArtistsPage env bandName) pages offset schedule
             (async_init workersNum pages) of
        None \<Rightarrow> None
      | Some s \<Rightarrow> outcome s)"

subsection \<open>A site for concrete runs\<close>

text \<open>
  A small site to run the collectors on: the band has eleven similar artists, ten on page 1
  and one on page 2, and the server answers every later page number by redirecting to page 1;
  on the broken site the request for page 3 fails in transport.
\<close>

definition first_page :: "string list" where
  "first_page = [''Unwound'', ''Rites of Spring'', ''Jawbox'', ''Drive Like Jehu'', ''Shellac'',
     ''Minutemen'', ''Mission of Burma'', ''Slint'', ''Wire'', ''Embrace'']"

definition similar_markup :: "string list \<Rightarrow> token list" where
  "similar_markup names =
     StartTag ''ol'' [(''class'', ''similar-artists'')]
     # concat (map (\<lambda>n. [StartTag ''li'' [], StartTag ''a'' [(''class'', ''link-block-target'')],
                          Text n, EndTag ''a'', EndTag ''li'']) names)
     @ [EndTag ''ol'']"

definition served :: "string \<Rightarrow> string list \<Rightarrow> Response" where
  "served p names =
     \<lparr>StatusCode = 200, Status = ''200 OK'', Header = ''map[]'', Query = [(''page'', p)],
      Body = similar_markup names, BodyErr = EOF\<rparr>"

definition example_site :: "bool \<Rightarrow> http_env" where
  "example_site broken =
     \<lparr>NewRequest = (\<lambda>u. None),
      Do = (\<lambda>u. if u = similarArtistsPageURL ''Fugazi'' 1
                  then Inr (served ''1'' first_page)
                else if u = similarArtistsPageURL ''Fugazi'' 2
                  then Inr (served ''2'' [''Jawbreaker''])
                else if broken \<and> u = similarArtistsPageURL ''Fugazi'' 3
                  then Inl (Error ''context deadline exceeded'')
                else Inr (served ''1'' first_page)),
      extra = (\<lambda>e. [])\<rparr>"

section \<open>Properties\<close>

subsection \<open>The attribute iterator replays its cache\<close>

lemma iterate_cached:
  "\<not> has_tokenizer i \<Longrightarrow> length (keys i) = length (vals i) \<Longrightarrow> - 1 \<le> pos i \<Longrightarrow>
   \<exists>i'. iterate z i = Inr (drop (nat (pos i + 1)) (zip (keys i) (vals i)), z, i')"
proof (induction z i rule: iterate.induct)
  case (1 z i)
  show ?case
  proof (cases "pos i + 1 < int (length (keys i))")
    case False
    then show ?thesis using 1(2-)
      by (subst iterate.simps) (simp add: iter_Next_def Let_def)
  next
    case True
    let ?i1 = "i\<lparr>pos := pos i + 1\<rparr>"
    define n where "n = nat (pos i + 1)"
    have n: "pos i + 1 = int n" "nat (pos i + 1 + 1) = Suc n" "n < length (keys i)"
      using True 1(4) by (simp_all add: n_def)
    have nx: "iter_Next z i = (True, z, ?i1)"
      using True 1(2) by (simp add: iter_Next_def Let_def)
    have at: "Attrs ?i1 = Inr (keys i ! n, vals i ! n)"
      using n 1(3) by (simp add: Attrs_def)
    from "1.IH"[OF nx[symmetric] refl refl at] 1(2-)
    obtain i' where rec: "iterate z ?i1 = Inr (drop (Suc n) (zip (keys i) (vals i)), z, i')"
      using n by auto
    have idx: "n < length (zip (keys i) (vals i))"
      using n 1(3) by simp
    have "drop n (zip (keys i) (vals i)) =
          (keys i ! n, vals i ! n) # drop (Suc n) (zip (keys i) (vals i))"
      using Cons_nth_drop_Suc[OF idx, symmetric] idx by simp
    then show ?thesis unfolding n_def[symmetric]
      by (subst iterate.simps) (simp add: nx at rec)
  qed
qed

lemma iterate_reading:
  "has_tokenizer i \<Longrightarrow> length (keys i) = length (vals i) \<Longrightarrow> pos i = int (length (keys i)) - 1 \<Longrightarrow>
   \<exists>ps z' i'. iterate z i = Inr (ps, z', i') \<and> \<not> has_tokenizer i' \<and>
      keys i' = keys i @ map fst ps \<and> vals i' = vals i @ map snd ps"
proof (induction z i rule: iterate.induct)
  case (1 z i)
  obtain key val moreAttr z' where ta: "TagAttr z = (key, val, moreAttr, z')"
    by (cases "TagAttr z") auto
  let ?i3 = "i\<lparr>pos := pos i + 1, has_tokenizer := moreAttr, keys := keys i @ [key], vals := vals i @ [val]\<rparr>"
  have nx: "iter_Next z i = (True, z', ?i3)"
    using 1(2-) ta by (simp add: iter_Next_def Let_def)
  have at: "Attrs ?i3 = Inr (key, val)"
    using 1(2-) by (simp add: Attrs_def nth_append)
  show ?case
  proof (cases moreAttr)
    case True
    from "1.IH"[OF nx[symmetric] refl refl at] True 1(2-)
    obtain ps z'' i' where rec: "iterate z' ?i3 = Inr (ps, z'', i')" "\<not> has_tokenizer i'"
      "keys i' = (keys i @ [key]) @ map fst ps" "vals i' = (vals i @ [val]) @ map snd ps"
      by auto
    then show ?thesis
      by (subst iterate.simps) (simp add: nx at)
  next
    case False
    have rec: "iterate z' ?i3 = Inr ([], z', ?i3\<lparr>pos := pos ?i3 + 1\<rparr>)"
      using False 1(2-) by (subst iterate.simps) (simp add: iter_Next_def Let_def)
    show ?thesis
      apply (subst iterate.simps)
      using False nx at rec by simp
  qed
qed

text \<open>
  Claim C10. Iterating all attributes of the current token through \<^verbatim>\<open>Next\<close>/\<^verbatim>\<open>Attrs\<close>
  from a fresh iterator succeeds with some sequence of pairs, and after \<^verbatim>\<open>Reset\<close> a second
  iteration yields the same sequence; the second iteration is a replay of the cache: it gives
  that sequence on whatever tokenizer state it runs and leaves that state unchanged.
\<close>

theorem iter_replay:
  "\<exists>ps z1 i1. iterate z NewIter = Inr (ps, z1, i1) \<and>
     (\<forall>z'. \<exists>i2. iterate z' (Reset i1) = Inr (ps, z', i2))"
proof -
  from iterate_reading[of NewIter z]
  obtain ps z1 i1 where r: "iterate z NewIter = Inr (ps, z1, i1)" "\<not> has_tokenizer i1"
      "keys i1 = map fst ps" "vals i1 = map snd ps"
    by (auto simp: NewIter_def)
  have "\<exists>i2. iterate z' (Reset i1) = Inr (ps, z', i2)" for z'
    using iterate_cached[of "Reset i1" z'] r by (simp add: Reset_def zip_map_fst_snd)
  with r(1) show ?thesis by blast
qed

theorem iter_replay_witness:
  "\<exists>ps z1 i1.
     iterate (snd (Next (NewTokenizer [StartTag ''a'' [(''href'', ''/music/x''), (''class'', ''y'')]] EOF)))
       NewIter = Inr (ps, z1, i1) \<and>
     (\<forall>z'. \<exists>i2. iterate z' (Reset i1) = Inr (ps, z', i2))"
  by (rule iter_replay)

subsection \<open>The attribute matcher\<close>

lemma attr_loop_cached:
  "\<not> has_tokenizer i \<Longrightarrow> length (keys i) = length (vals i) \<Longrightarrow> pos i = int n - 1 \<Longrightarrow>
   \<exists>i'. attr_loop r z i = Inr (match_attrs r (drop n (zip (keys i) (vals i))), z, i')
     \<and> \<not> has_tokenizer i' \<and> keys i' = keys i \<and> vals i' = vals i"
proof (induction "length (keys i) - n" arbitrary: n i)
  case 0
  then have "iter_Next z i = (False, z, i\<lparr>pos := int n\<rparr>)"
    by (simp add: iter_Next_def Let_def)
  from attr_loop_stop[OF this] 0 show ?case by simp
next
  case (Suc k)
  let ?i1 = "i\<lparr>pos := int n\<rparr>"
  have n: "n < length (keys i)" "n < length (vals i)" using Suc by simp_all
  have nx: "iter_Next z i = (True, z, ?i1)"
    using Suc n by (simp add: iter_Next_def Let_def)
  have at: "Attrs ?i1 = Inr (keys i ! n, vals i ! n)"
    using n by (simp add: Attrs_def)
  have dr: "drop n (zip (keys i) (vals i)) =
        (keys i ! n, vals i ! n) # drop (Suc n) (zip (keys i) (vals i))"
    using Cons_nth_drop_Suc[of n "zip (keys i) (vals i)", symmetric] n by simp
  have "k = length (keys ?i1) - Suc n" "\<not> has_tokenizer ?i1"
     "length (keys ?i1) = length (vals ?i1)" "pos ?i1 = int (Suc n) - 1"
    using Suc by simp_all
  from Suc.hyps(1)[OF this]
  obtain i' where ih: "attr_loop r z ?i1 = Inr (match_attrs r (drop (Suc n) (zip (keys i) (vals i))), z, i')"
     "\<not> has_tokenizer i'" "keys i' = keys i" "vals i' = vals i"
    by auto
  show ?case
    unfolding attr_loop_step[OF nx at] dr using ih Suc.prems
    by (auto split: option.splits)
qed

lemma attr_loop_reading:
  "reading attrs n z i \<Longrightarrow> pos i = int n - 1 \<Longrightarrow>
   \<exists>z' i'. attr_loop r z i = Inr (match_attrs r (drop n attrs), z', i')
     \<and> (match_attrs r (drop n attrs) = None \<longrightarrow> complete attrs i')"
proof (induction "length attrs - n" arbitrary: n z i)
  case 0
  then show ?case by (simp add: reading_def)
next
  case (Suc k)
  from Suc.prems have r: "attr z = attrs" "tt z = StartTagToken \<or> tt z = SelfClosingTagToken"
     "nAttrReturned z = n" "n < length attrs" "has_tokenizer i"
     "keys i = map fst (take n attrs)" "vals i = map snd (take n attrs)"
    by (simp_all add: reading_def)
  let ?z1 = "z\<lparr>nAttrReturned := Suc n\<rparr>"
  let ?i1 = "i\<lparr>pos := int n, has_tokenizer := Suc n < length attrs,
     keys := keys i @ [fst (attrs ! n)], vals := vals i @ [snd (attrs ! n)]\<rparr>"
  have ta: "TagAttr z = (fst (attrs ! n), snd (attrs ! n), Suc n < length attrs, ?z1)"
    using r by (auto simp: TagAttr_def)
  have nx: "iter_Next z i = (True, ?z1, ?i1)"
    using r Suc.prems(2) by (simp add: iter_Next_def Let_def ta)
  have at: "Attrs ?i1 = Inr (fst (attrs ! n), snd (attrs ! n))"
    using r by (simp add: Attrs_def nth_append)
  have dr: "drop n attrs = (fst (attrs ! n), snd (attrs ! n)) # drop (Suc n) attrs"
    using Cons_nth_drop_Suc[of n attrs, symmetric] r by simp
  have tk: "take (Suc n) attrs = take n attrs @ [attrs ! n]"
    using r by (simp add: take_Suc_conv_app_nth)
  have rest: "\<exists>z' i'. attr_loop r ?z1 ?i1 = Inr (match_attrs r (drop (Suc n) attrs), z', i')
       \<and> (match_attrs r (drop (Suc n) attrs) = None \<longrightarrow> complete attrs i')"
  proof (cases "Suc n < length attrs")
    case True
    have "reading attrs (Suc n) ?z1 ?i1"
      using r True by (simp add: reading_def tk)
    moreover have "k = length attrs - Suc n" using Suc.hyps(2) by simp
    ultimately show ?thesis using Suc.hyps(1)[of "Suc n" ?z1 ?i1] by simp
  next
    case False
    then have e: "take (Suc n) attrs = attrs" using r by simp
    have "map fst (take n attrs @ [attrs ! n]) = map fst attrs"
         "map snd (take n attrs @ [attrs ! n]) = map snd attrs"
      using tk e by simp_all
    then have ks: "keys ?i1 = map fst attrs" "vals ?i1 = map snd attrs"
      using r(6,7) by simp_all
    have st: "iter_Next ?z1 ?i1 = (False, ?z1, ?i1\<lparr>pos := int n + 1\<rparr>)"
      using False r by (simp add: iter_Next_def Let_def)
    have "complete attrs (?i1\<lparr>pos := int n + 1\<rparr>)"
      using ks False unfolding complete_def by simp
    moreover have "drop (Suc n) attrs = []" using False by simp
    ultimately show ?thesis using attr_loop_stop[OF st, of r] by simp
  qed
  then obtain z' i' where rest': "attr_loop r ?z1 ?i1 = Inr (match_attrs r (drop (Suc n) attrs), z', i')"
      "match_attrs r (drop (Suc n) attrs) = None \<longrightarrow> complete attrs i'"
    by (elim exE conjE)
  have m: "match_attrs r (drop n attrs) =
     (if fst (attrs ! n) \<noteq> attrName r then match_attrs r (drop (Suc n) attrs)
      else if attrVals r = [] then Some (attrName r)
      else if hd (attrVals r) = ''*'' then Some (snd (attrs ! n))
      else (case first_contained (snd (attrs ! n)) (attrVals r) of
              Some attrVal \<Rightarrow> Some attrVal
            | None \<Rightarrow> match_attrs r (drop (Suc n) attrs)))"
    by (subst dr, subst match_attrs.simps(2)) (rule refl)
  show ?case
  proof -
    define L where "L = attr_loop r ?z1 ?i1"
    define M where "M = match_attrs r (drop (Suc n) attrs)"
    have "\<exists>z' i'. L = Inr (M, z', i') \<and> (M = None \<longrightarrow> complete attrs i')"
      unfolding L_def M_def by (rule rest)
    then show ?thesis
      unfolding attr_loop_step[OF nx at] m L_def[symmetric] M_def[symmetric]
      by (simp split: option.splits)
  qed
qed


lemma rules_loop_no_attrs:
  "rules_loop name False rules z i = Inr (amended_containsAttr name [] rules, z)"
  by (induction rules) auto

lemma rules_loop_attrs:
  "reading attrs 0 z (Reset i) \<or> complete attrs i \<Longrightarrow> attrs \<noteq> [] \<Longrightarrow>
   \<exists>z'. rules_loop name True rules z i = Inr (amended_containsAttr name attrs rules, z')"
proof (induction rules arbitrary: z i)
  case Nil
  show ?case by simp
next
  case (Cons r rs)
  have p: "pos (Reset i) = int 0 - 1" by (simp add: Reset_def)
  have "\<exists>z' i'. attr_loop r z (Reset i) = Inr (match_attrs r attrs, z', i')
          \<and> (match_attrs r attrs = None \<longrightarrow> complete attrs i')"
  proof (cases "complete attrs i")
    case True
    then have c: "\<not> has_tokenizer (Reset i)" "length (keys (Reset i)) = length (vals (Reset i))"
       "zip (keys (Reset i)) (vals (Reset i)) = attrs"
      by (simp_all add: complete_def Reset_def zip_map_fst_snd)
    from attr_loop_cached[OF c(1,2) p, of r z] c(3) True show ?thesis
      by (auto simp: complete_def Reset_def)
  next
    case False
    with Cons.prems have "reading attrs 0 z (Reset i)" by simp
    from attr_loop_reading[OF this p, of r] show ?thesis by simp
  qed
  then obtain z' i' where al: "attr_loop r z (Reset i) = Inr (match_attrs r attrs, z', i')"
     "match_attrs r attrs = None \<longrightarrow> complete attrs i'"
    by (elim exE conjE)
  show ?case
  proof (cases "match_attrs r attrs")
    case None
    with al have "complete attrs i'" by simp
    from Cons.IH[OF disjI2, OF this Cons.prems(2), of z'] obtain z'' where
      "rules_loop name True rs z' i' = Inr (amended_containsAttr name attrs rs, z'')"
      by (elim exE)
    then show ?thesis using Cons.IH[of z i] Cons.prems al None by auto
  next
    case (Some s)
    then show ?thesis using Cons.IH[of z i] Cons.prems al by auto
  qed
qed

text \<open>
  Claim C1, amended. On every tag token with a non-empty name, \<^verbatim>\<open>containsAttr\<close> returns
  without panic the value \<open>amended_containsAttr\<close> gives for the tag's name, its attribute list
  and the rules: the rules are taken in order; a rule with an empty attribute name resolves to
  the tag name; a rule that names an attribute resolves, over the attributes with that key in
  document order, to the attribute name (no accepted values), to the raw value (first accepted
  value \<^verbatim>\<open>"*"\<close>) or to the first accepted value contained in the value; a rule that does
  not resolve hands over to the next rule, except that on a tag with no attribute at all the
  first rule for the tag's name that names an attribute ends the evaluation with the empty
  result; no rule resolving gives the empty result.
\<close>

theorem containsAttr_amended:
  assumes "err z = None" and "unread z = t # ts"
    and "is_tag (token_type t)" and "token_data t \<noteq> []"
  shows "\<exists>z'. containsAttr (snd (Next z)) rules =
           Inr (amended_containsAttr (token_data t) (token_attr t) rules, z')"
proof -
  let ?z1 = "snd (Next z)"
  have z1: "tt ?z1 = token_type t" "data ?z1 = token_data t" "attr ?z1 = token_attr t"
      "nAttrReturned ?z1 = 0"
    using assms(1,2) by (simp_all add: Next_def)
  let ?z2 = "?z1\<lparr>data := []\<rparr>"
  have tn: "TagName ?z1 = (token_data t, token_attr t \<noteq> [], ?z2)"
    using z1 assms(3,4) by (simp add: TagName_def)
  show ?thesis
  proof (cases "token_attr t = []")
    case True
    from rules_loop_no_attrs[of "token_data t" rules ?z2 NewIter] tn True
    show ?thesis
      by (simp add: containsAttr_def)
  next
    case False
    then have "tt ?z1 = StartTagToken \<or> tt ?z1 = SelfClosingTagToken"
      using z1(1) by (cases t) simp_all
    then have "reading (token_attr t) 0 ?z2 (Reset NewIter)"
      using z1 False by (simp add: reading_def Reset_def NewIter_def)
    from rules_loop_attrs[OF disjI1, OF this False] tn False show ?thesis
      by (simp add: containsAttr_def)
  qed
qed

text \<open>
  The theorem at three tags: a \<^verbatim>\<open>div\<close> whose first rule finds its key but none of its accepted
  values, so that the third rule resolves; an \<^verbatim>\<open>abbr\<close> whose title is captured by the wildcard;
  and an \<^verbatim>\<open>ol\<close> without attributes, for which a rule that names an attribute gives the empty
  result.
\<close>

theorem containsAttr_amended_witness:
  "(\<exists>z'. containsAttr
       (snd (Next (NewTokenizer [StartTag ''div'' [(''id'', ''main''), (''class'', ''x wiki-content'')]] EOF)))
       [TagAttr_rule ''div'' ''class'' [''factbox''], TagAttr_rule ''ul'' ''class'' [''factbox''],
        TagAttr_rule ''div'' ''class'' [''wiki-content'']] = Inr (''wiki-content'', z'))
   \<and> (\<exists>z'. containsAttr
       (snd (Next (NewTokenizer [StartTag ''abbr'' [(''title'', ''1,234'')]] EOF)))
       [TagAttr_rule ''h1'' ''class'' [''header-new-title''], TagAttr_rule ''abbr'' ''title'' [''*'']]
       = Inr (''1,234'', z'))
   \<and> (\<exists>z'. containsAttr
       (snd (Next (NewTokenizer [StartTag ''ol'' []] EOF)))
       [TagAttr_rule ''ol'' ''class'' [''big-tags'', ''similar-items-sidebar'']] = Inr ([], z'))"
  using
    containsAttr_amended [of
      "NewTokenizer [StartTag ''div'' [(''id'', ''main''), (''class'', ''x wiki-content'')]] EOF"
      "StartTag ''div'' [(''id'', ''main''), (''class'', ''x wiki-content'')]" "[]"
      "[TagAttr_rule ''div'' ''class'' [''factbox''], TagAttr_rule ''ul'' ''class'' [''factbox''],
        TagAttr_rule ''div'' ''class'' [''wiki-content'']]"]
    containsAttr_amended [of
      "NewTokenizer [StartTag ''abbr'' [(''title'', ''1,234'')]] EOF"
      "StartTag ''abbr'' [(''title'', ''1,234'')]" "[]"
      "[TagAttr_rule ''h1'' ''class'' [''header-new-title''], TagAttr_rule ''abbr'' ''title'' [''*'']]"]
    containsAttr_amended [of
      "NewTokenizer [StartTag ''ol'' []] EOF" "StartTag ''ol'' []" "[]"
      "[TagAttr_rule ''ol'' ''class'' [''big-tags'', ''similar-items-sidebar'']]"]
  by (simp add: NewTokenizer_def is_tag_def TagAttr_rule_def HasPrefix_def)

text \<open>
  The claim as stated fails in three ways, each at a concrete tag, the matcher's result first
  and the specification's resolution second. On \<^verbatim>\<open><div>\<close>, a tag without attributes, the
  attribute rule ends the evaluation with the empty result and the name-only rule after it is
  never tried. On \<^verbatim>\<open><div class="abc">\<close> the accepted values \<^verbatim>\<open>["*", "b"]\<close> are the wildcard
  although they are not the list \<^verbatim>\<open>["*"]\<close>. On \<^verbatim>\<open><div class="a" class="b">\<close> the second
  attribute with the key is tried after the first contains no accepted value.
\<close>

theorem containsAttr_counterexample:
  "(map_sum id fst (containsAttr (snd (Next (NewTokenizer [StartTag ''div'' []] EOF)))
      [TagAttr_rule ''div'' ''class'' [''x''], TagAttr_rule ''div'' [] []]) = Inr []
    \<and> spec_containsAttr ''div'' [] [TagAttr_rule ''div'' ''class'' [''x''], TagAttr_rule ''div'' [] []] = ''div'')
   \<and> (map_sum id fst (containsAttr (snd (Next (NewTokenizer [StartTag ''div'' [(''class'', ''abc'')]] EOF)))
      [TagAttr_rule ''div'' ''class'' [''*'', ''b'']]) = Inr ''abc''
    \<and> spec_containsAttr ''div'' [(''class'', ''abc'')] [TagAttr_rule ''div'' ''class'' [''*'', ''b'']] = ''b'')
   \<and> (map_sum id fst (containsAttr (snd (Next (NewTokenizer [StartTag ''div'' [(''class'', ''a''), (''class'', ''b'')]] EOF)))
      [TagAttr_rule ''div'' ''class'' [''b'']]) = Inr ''b''
    \<and> spec_containsAttr ''div'' [(''class'', ''a''), (''class'', ''b'')] [TagAttr_rule ''div'' ''class'' [''b'']] = [])"
  by code_simp

subsection \<open>The Members section\<close>

lemma update_last:
  "ms \<noteq> [] \<Longrightarrow> ms[length ms - 1 := f (ms ! (length ms - 1))] = butlast ms @ [f (last ms)]"
  by (induction ms rule: rev_induct) (simp_all add: nth_append)

lemma members_text_attach:
  "tt z = TextToken \<Longrightarrow>
   members_text trim z w =
     Continue (z\<lparr>data := []\<rparr>,
       if trim (data z) = [] then w else w\<lparr>Members := attach (Members w) (trim (data z))\<rparr>)"
  using update_last[of "Members w" "\<lambda>m. m\<lparr>YearsActive := trim (data z)\<rparr>"]
  by (simp add: members_text_def TextOf_def is_text_def Let_def attach_def)

lemma containsAttr_name_rule:
  "is_tag (tt z) \<Longrightarrow>
   containsAttr z [TagAttr_rule n [] []] =
     Inr (if data z = n then n else [], if data z = [] then z else z\<lparr>data := []\<rparr>)"
proof (cases "data z = []")
  case True
  then have "TagName z = ([], False, z)" by (simp add: TagName_def)
  then show ?thesis using True
    by (simp add: containsAttr_def rules_loop_no_tag)
next
  case False
  assume "is_tag (tt z)"
  with False have "TagName z = (data z, nAttrReturned z < length (attr z), z\<lparr>data := []\<rparr>)"
    by (simp add: TagName_def)
  then show ?thesis using False
    by (auto simp add: containsAttr_def TagAttr_rule_def)
qed

lemma containsAttr_ul:
  "tt z = EndTagToken \<Longrightarrow>
   \<exists>z'. containsAttr z [TagAttr_rule ''ul'' [] []] = Inr (if data z = ''ul'' then ''ul'' else [], z')
      \<and> unread z' = unread z \<and> err z' = err z"
proof -
  assume "tt z = EndTagToken"
  then have t: "is_tag (tt z)" by (simp add: is_tag_def)
  let ?z' = "if data z = [] then z else z\<lparr>data := []\<rparr>"
  have "unread ?z' = unread z" "err ?z' = err z" by simp_all
  with containsAttr_name_rule[OF t, of "''ul''"] show ?thesis by blast
qed

lemma members_loop_fold:
  "err z = None \<Longrightarrow> unread z = ts \<Longrightarrow>
   \<exists>z'. members_loop trim z w =
          Inr (z', w\<lparr>Members := foldl attach (Members w) (fragments trim ts)\<rparr>)
        \<and> unread z' = after_section ts"
proof (induction ts arbitrary: z w)
  case Nil
  then show ?case
    by (subst members_loop.simps) (simp add: Next_def Err_def fragments_def)
next
  case (Cons t ts)
  obtain z1 where nx: "Next z = (token_type t, z1)" "err z1 = None" "unread z1 = ts"
      "tt z1 = token_type t" "data z1 = token_data t"
    using Cons.prems by (simp add: Next_def)
  have go: "members_loop trim z w = (case members_body trim (token_type t) z1 w of
                  Inl e \<Rightarrow> Inl e
                | Inr (Break (z2, w2)) \<Rightarrow> Inr (z2, w2)
                | Inr (Continue (z2, w2)) \<Rightarrow> members_loop trim z2 w2)"
    by (subst members_loop.simps) (simp add: nx Err_def)
  show ?case
  proof (cases t)
    case (Text s)
    have b: "members_body trim (token_type t) z1 w =
       Inr (Continue (z1\<lparr>data := []\<rparr>,
         if trim s = [] then w else w\<lparr>Members := attach (Members w) (trim s)\<rparr>))"
      using Text nx members_text_attach[of z1 trim w] by (simp add: members_body_def)
    let ?w1 = "if trim s = [] then w else w\<lparr>Members := attach (Members w) (trim s)\<rparr>"
    from Cons.IH[of "z1\<lparr>data := []\<rparr>" ?w1] nx
    obtain z' where "members_loop trim (z1\<lparr>data := []\<rparr>) ?w1 =
          Inr (z', ?w1\<lparr>Members := foldl attach (Members ?w1) (fragments trim ts)\<rparr>)"
        "unread z' = after_section ts"
      by auto
    then show ?thesis
      unfolding go b using Text by (auto simp: fragments_def)
  next
    case (EndTag n)
    from containsAttr_ul[of z1] nx EndTag
    obtain z2 where c: "containsAttr z1 [TagAttr_rule ''ul'' [] []] = Inr (if n = ''ul'' then ''ul'' else [], z2)"
        "unread z2 = ts" "err z2 = None"
      by auto
    show ?thesis
    proof (cases "n = ''ul''")
      case True
      then show ?thesis
        unfolding go using EndTag c by (simp add: members_body_def fragments_def)
    next
      case False
      from Cons.IH[OF c(3,2), of w]
      obtain z' where "members_loop trim z2 w =
          Inr (z', w\<lparr>Members := foldl attach (Members w) (fragments trim ts)\<rparr>)"
        "unread z' = after_section ts"
        by auto
      then show ?thesis
        unfolding go using EndTag c False by (simp add: members_body_def fragments_def)
    qed
  next
    case (StartTag n as)
    from Cons.IH[OF nx(2,3), of w]
    obtain z' where "members_loop trim z1 w =
        Inr (z', w\<lparr>Members := foldl attach (Members w) (fragments trim ts)\<rparr>)"
      "unread z' = after_section ts"
      by auto
    then show ?thesis
      unfolding go using StartTag by (simp add: members_body_def fragments_def)
  next
    case (SelfClosingTag n as)
    from Cons.IH[OF nx(2,3), of w]
    obtain z' where "members_loop trim z1 w =
        Inr (z', w\<lparr>Members := foldl attach (Members w) (fragments trim ts)\<rparr>)"
      "unread z' = after_section ts"
      by auto
    then show ?thesis
      unfolding go using SelfClosingTag by (simp add: members_body_def fragments_def)
  next
    case (Comment s)
    from Cons.IH[OF nx(2,3), of w]
    obtain z' where "members_loop trim z1 w =
        Inr (z', w\<lparr>Members := foldl attach (Members w) (fragments trim ts)\<rparr>)"
      "unread z' = after_section ts"
      by auto
    then show ?thesis
      unfolding go using Comment by (simp add: members_body_def fragments_def)
  next
    case (Doctype s)
    from Cons.IH[OF nx(2,3), of w]
    obtain z' where "members_loop trim z1 w =
        Inr (z', w\<lparr>Members := foldl attach (Members w) (fragments trim ts)\<rparr>)"
      "unread z' = after_section ts"
      by auto
    then show ?thesis
      unfolding go using Doctype by (simp add: members_body_def fragments_def)
  qed
qed


text \<open>
  Claim C7, amended. The Members loop never fails; it ends behind the first closing \<^verbatim>\<open>ul\<close>
  (or at the end of the page) and has folded the trimmed, non-empty text fragments of the
  section into the member list, in order: a fragment that starts with \<^verbatim>\<open>(\<close> while a member
  exists replaces the years-active string of the last member, and every other fragment, a
  parenthesized one before any member too, is appended as a new member named by the fragment.
\<close>

theorem members_loop_attach:
  assumes "err z = None"
  shows "\<exists>z'. members_loop trim z w =
            Inr (z', w\<lparr>Members := foldl attach (Members w) (fragments trim (unread z))\<rparr>)
          \<and> unread z' = after_section (unread z)"
  using members_loop_fold[OF assms refl] .

theorem members_loop_attach_witness:
  "err (NewTokenizer [Text '' (1987 - present) '', StartTag ''li'' [], Text ''Joe Lally'',
         Text ''  '', Text ''(1987 - 2003)'', Text ''(1987 - present)'', EndTag ''li'', EndTag ''ul'',
         Text ''after''] EOF) = None
   \<and> (\<exists>z'. members_loop TrimSpace_ascii
         (NewTokenizer [Text '' (1987 - present) '', StartTag ''li'' [], Text ''Joe Lally'',
            Text ''  '', Text ''(1987 - 2003)'', Text ''(1987 - present)'', EndTag ''li'', EndTag ''ul'',
            Text ''after''] EOF) new_Wiki =
         Inr (z', new_Wiki\<lparr>Members :=
                [\<lparr>Member.Name = ''(1987 - present)'', YearsActive = []\<rparr>,
                 \<lparr>Member.Name = ''Joe Lally'', YearsActive = ''(1987 - present)''\<rparr>]\<rparr>)
       \<and> unread z' = [Text ''after''])"
  using members_loop_attach [of "NewTokenizer [Text '' (1987 - present) '', StartTag ''li'' [], Text ''Joe Lally'',
         Text ''  '', Text ''(1987 - 2003)'', Text ''(1987 - present)'', EndTag ''li'', EndTag ''ul'',
         Text ''after''] EOF" TrimSpace_ascii new_Wiki]
  by (simp add: NewTokenizer_def new_Wiki_def fragments_def attach_def HasPrefix_def
      TrimSpace_ascii_def)

text \<open>
  The claim as stated fails when the section opens with a parenthesized fragment: the fragment
  is not dropped but becomes the first member, where the specification's property gives the
  list without it.
\<close>

theorem members_loop_counterexample:
  "map_sum id (\<lambda>(z, w). Members w)
     (members_loop TrimSpace_ascii
        (NewTokenizer [Text ''(1987 - present)'', Text ''Joe Lally'', EndTag ''ul''] EOF) new_Wiki) =
     Inr [\<lparr>Member.Name = ''(1987 - present)'', YearsActive = []\<rparr>,
          \<lparr>Member.Name = ''Joe Lally'', YearsActive = []\<rparr>]
   \<and> foldl spec_attach [] [''(1987 - present)'', ''Joe Lally''] =
       [\<lparr>Member.Name = ''Joe Lally'', YearsActive = []\<rparr>]"
  by code_simp

subsection \<open>The references of the Biography section\<close>

lemma rules_loop_name_only:
  "list_all (\<lambda>r. attrName r = []) rules \<Longrightarrow>
   rules_loop name hasAttr rules z i =
     Inr (if name \<in> set (map tagName rules) then name else [], z)"
  by (induction rules) auto

lemma containsAttr_bio_rules:
  "is_tag (tt z) \<Longrightarrow>
   containsAttr z bio_rules =
     Inr (if data z \<in> {''p'', ''div'', ''br'', ''a''} then data z else [],
          if data z = [] then z else z\<lparr>data := []\<rparr>)"
proof (cases "data z = []")
  case True
  then have "TagName z = ([], False, z)" by (simp add: TagName_def)
  then show ?thesis using True
    by (simp add: containsAttr_def rules_loop_no_tag)
next
  case False
  assume "is_tag (tt z)"
  with False have "TagName z = (data z, nAttrReturned z < length (attr z), z\<lparr>data := []\<rparr>)"
    by (simp add: TagName_def)
  moreover have "list_all (\<lambda>r. attrName r = []) bio_rules"
    by (simp add: bio_rules_def TagAttr_rule_def)
  moreover have "set (map tagName bio_rules) = {''p'', ''div'', ''br'', ''a''}"
    by (auto simp: bio_rules_def TagAttr_rule_def)
  ultimately show ?thesis using False
    by (simp add: containsAttr_def rules_loop_name_only del: set_map)
qed

lemma href_loop_stop:
  "iter_Next z i = (False, z', i') \<Longrightarrow> href_loop z i = Inr (None, z')"
  by (subst href_loop.simps) simp

lemma href_loop_step:
  "iter_Next z i = (True, z', i') \<Longrightarrow> Attrs i' = Inr (key, val) \<Longrightarrow>
   href_loop z i = (if key = ''href'' then Inr (Some val, z') else href_loop z' i')"
  by (subst href_loop.simps) simp

lemma href_loop_reading:
  "reading attrs n z i \<Longrightarrow> pos i = int n - 1 \<Longrightarrow>
   \<exists>z'. href_loop z i = Inr (map_of (drop n attrs) ''href'', z')"
proof (induction "length attrs - n" arbitrary: n z i)
  case 0
  then show ?case by (simp add: reading_def)
next
  case (Suc k)
  from Suc.prems have r: "attr z = attrs" "tt z = StartTagToken \<or> tt z = SelfClosingTagToken"
     "nAttrReturned z = n" "n < length attrs" "has_tokenizer i"
     "keys i = map fst (take n attrs)" "vals i = map snd (take n attrs)"
    by (simp_all add: reading_def)
  let ?z1 = "z\<lparr>nAttrReturned := Suc n\<rparr>"
  let ?i1 = "i\<lparr>pos := int n, has_tokenizer := Suc n < length attrs,
     keys := keys i @ [fst (attrs ! n)], vals := vals i @ [snd (attrs ! n)]\<rparr>"
  have ta: "TagAttr z = (fst (attrs ! n), snd (attrs ! n), Suc n < length attrs, ?z1)"
    using r by (auto simp: TagAttr_def)
  have nx: "iter_Next z i = (True, ?z1, ?i1)"
    using r Suc.prems(2) by (simp add: iter_Next_def Let_def ta)
  have at: "Attrs ?i1 = Inr (fst (attrs ! n), snd (attrs ! n))"
    using r by (simp add: Attrs_def nth_append)
  have dr: "drop n attrs = (fst (attrs ! n), snd (attrs ! n)) # drop (Suc n) attrs"
    using Cons_nth_drop_Suc[of n attrs, symmetric] r by simp
  have tk: "take (Suc n) attrs = take n attrs @ [attrs ! n]"
    using r by (simp add: take_Suc_conv_app_nth)
  have rest: "\<exists>z'. href_loop ?z1 ?i1 = Inr (map_of (drop (Suc n) attrs) ''href'', z')"
  proof (cases "Suc n < length attrs")
    case True
    have "reading attrs (Suc n) ?z1 ?i1"
      using r True by (simp add: reading_def tk)
    moreover have "k = length attrs - Suc n" using Suc.hyps(2) by simp
    ultimately show ?thesis using Suc.hyps(1)[of "Suc n" ?z1 ?i1] by simp
  next
    case False
    have st: "iter_Next ?z1 ?i1 = (False, ?z1, ?i1\<lparr>pos := int n + 1\<rparr>)"
      using False r by (simp add: iter_Next_def Let_def)
    have "drop (Suc n) attrs = []" using False by simp
    then show ?thesis using href_loop_stop[OF st] by simp
  qed
  have m: "map_of (drop n attrs) ''href'' =
     (if fst (attrs ! n) = ''href'' then Some (snd (attrs ! n))
      else map_of (drop (Suc n) attrs) ''href'')"
    by (subst dr) simp
  define L where "L = href_loop ?z1 ?i1"
  have "\<exists>z'. L = Inr (map_of (drop (Suc n) attrs) ''href'', z')"
    unfolding L_def by (rule rest)
  then show ?case
    unfolding href_loop_step[OF nx at] m L_def[symmetric] by simp
qed

lemma href_loop_map_of:
  assumes "tt z = StartTagToken" and "nAttrReturned z = 0"
  shows "\<exists>z'. href_loop z NewIter = Inr (map_of (attr z) ''href'', z')
           \<and> unread z' = unread z \<and> err z' = err z"
proof -
  have "\<exists>z'. href_loop z NewIter = Inr (map_of (attr z) ''href'', z')"
  proof (cases "attr z = []")
    case True
    let ?i1 = "\<lparr>has_tokenizer = False, pos = 0, keys = [[]], vals = [[]]\<rparr>"
    have nx: "iter_Next z NewIter = (True, z, ?i1)"
      using True by (simp add: iter_Next_def NewIter_def TagAttr_def Let_def)
    have at: "Attrs ?i1 = Inr ([], [])" by (simp add: Attrs_def)
    have st: "iter_Next z ?i1 = (False, z, ?i1\<lparr>pos := 1\<rparr>)"
      by (simp add: iter_Next_def Let_def)
    show ?thesis
      unfolding href_loop_step[OF nx at] using href_loop_stop[OF st] True by simp
  next
    case False
    with assms have "reading (attr z) 0 z NewIter"
      by (simp add: reading_def NewIter_def)
    from href_loop_reading[OF this, of] show ?thesis by (simp add: NewIter_def)
  qed
  then obtain z' where h: "href_loop z NewIter = Inr (map_of (attr z) ''href'', z')"
    by (elim exE)
  from href_loop_unread[OF h] h show ?thesis by blast
qed


lemmas containsAttr_bio = containsAttr_bio_rules[unfolded bio_rules_def]

text \<open>What one iteration of the Biography loop does to the pending target, the seen texts,
  the references and the members, by the kind of the token.\<close>

lemma readbio_body_text:
  assumes "tt z = TextToken" and "data z = s"
  shows "\<exists>z2 st2 w2. readbio_body trim fmt TextToken z st w = Inr (Continue (z2, st2, w2))
     \<and> unread z2 = unread z \<and> err z2 = err z \<and> Members w2 = Members w
     \<and> (if s = [] then ref st2 = ref st \<and> refsSeen st2 = refsSeen st \<and> Refs w2 = Refs w
         else ref st2 = [] \<and>
           (if ref st \<noteq> [] \<and> refsSeen st s = None
            then refsSeen st2 = (refsSeen st)(s \<mapsto> ref st)
               \<and> Refs w2 = Refs w @ [\<lparr>Ref.Name = s, Reference = ref st\<rparr>]
            else refsSeen st2 = refsSeen st \<and> Refs w2 = Refs w))"
proof -
  have c: "containsAttr z [TagAttr_rule ''p'' [] [], TagAttr_rule ''div'' [] [],
                TagAttr_rule ''br'' [] [], TagAttr_rule ''a'' [] []] = Inr ([], z)"
    using assms(1) by (simp add: containsAttr_no_tag is_tag_def)
  have t: "TextOf z = (s, z\<lparr>data := []\<rparr>)"
    using assms by (simp add: TextOf_def is_text_def)
  show ?thesis
    by (simp add: readbio_body_def c readbio_text_def t Let_def)
qed

lemma readbio_body_other:
  assumes "tok = CommentToken \<or> tok = DoctypeToken" and "tt z = tok"
  shows "readbio_body trim fmt tok z st w = Inr (Continue (z, st, w))"
proof -
  have c: "containsAttr z [TagAttr_rule ''p'' [] [], TagAttr_rule ''div'' [] [],
                TagAttr_rule ''br'' [] [], TagAttr_rule ''a'' [] []] = Inr ([], z)"
    using assms by (auto simp add: containsAttr_no_tag is_tag_def)
  show ?thesis using assms(1)
    by (auto simp add: readbio_body_def c readbio_text_def)
qed

lemma readbio_body_selfclosing:
  assumes "tt z = SelfClosingTagToken"
  shows "\<exists>z2 st2. readbio_body trim fmt SelfClosingTagToken z st w = Inr (Continue (z2, st2, w))
     \<and> unread z2 = unread z \<and> err z2 = err z
     \<and> ref st2 = ref st \<and> refsSeen st2 = refsSeen st"
proof -
  have "is_tag (tt z)" using assms by (simp add: is_tag_def)
  note c = containsAttr_bio[OF this]
  show ?thesis
    by (simp add: readbio_body_def c readbio_text_def)
qed

lemma readbio_body_end:
  assumes "tt z = EndTagToken" and "data z = n"
  shows "\<exists>z2 st2 w2. readbio_body trim fmt EndTagToken z st w =
         Inr (if n = ''div'' then Break (z2, st2, w2) else Continue (z2, st2, w2))
     \<and> unread z2 = unread z \<and> err z2 = err z
     \<and> ref st2 = ref st \<and> refsSeen st2 = refsSeen st \<and> Refs w2 = Refs w \<and> Members w2 = Members w"
proof -
  have "is_tag (tt z)" using assms by (simp add: is_tag_def)
  note c = containsAttr_bio[OF this]
  show ?thesis using assms(2)
    by (simp add: readbio_body_def c readbio_text_def)
qed

lemma readbio_body_start:
  assumes "tt z = StartTagToken" and "data z = n" and "attr z = as" and "nAttrReturned z = 0"
  shows "\<exists>z2 st2. readbio_body trim fmt StartTagToken z st w = Inr (Continue (z2, st2, w))
     \<and> unread z2 = unread z \<and> err z2 = err z \<and> refsSeen st2 = refsSeen st
     \<and> ref st2 = (if n = ''a'' then (case map_of as ''href'' of Some h \<Rightarrow> h | None \<Rightarrow> ref st)
                   else ref st)"
proof -
  have "is_tag (tt z)" using assms by (simp add: is_tag_def)
  note c = containsAttr_bio[OF this]
  show ?thesis
  proof (cases "n = ''a''")
    case False
    then show ?thesis using assms(2)
      by (simp add: readbio_body_def c readbio_text_def)
  next
    case True
    let ?z1 = "z\<lparr>data := []\<rparr>"
    have "tt ?z1 = StartTagToken" "nAttrReturned ?z1 = 0" using assms by simp_all
    from href_loop_map_of[OF this] assms(3)
    obtain z2 where h: "href_loop ?z1 NewIter = Inr (map_of as ''href'', z2)"
        "unread z2 = unread z" "err z2 = err z"
      by auto
    show ?thesis using assms(2) True
      by (simp add: readbio_body_def c readbio_text_def h)
  qed
qed


lemma readbio_loop_refs:
  "err z = None \<Longrightarrow> unread z = ts \<Longrightarrow> dom (refsSeen st) = set seen \<Longrightarrow>
   \<exists>z' st' w'. readbio_loop trim fmt z st w = Inr (z', st', w')
      \<and> Refs w' = Refs w @ first_wins seen (pending_refs (ref st) ts)
      \<and> Members w' = Members w"
proof (induction ts arbitrary: z st w seen)
  case Nil
  then show ?case
    by (subst readbio_loop.simps) (simp add: Next_def Err_def)
next
  case (Cons t ts)
  obtain z1 where nx: "Next z = (token_type t, z1)" "err z1 = None" "unread z1 = ts"
      "tt z1 = token_type t" "data z1 = token_data t" "attr z1 = token_attr t"
      "nAttrReturned z1 = 0"
    using Cons.prems by (simp add: Next_def)
  have go: "readbio_loop trim fmt z st w =
        (case readbio_body trim fmt (token_type t) z1 st w of
           Inl e \<Rightarrow> Inl e
         | Inr (Break (z2, st2, w2)) \<Rightarrow> Inr (z2, st2, w2)
         | Inr (Continue (z2, st2, w2)) \<Rightarrow> readbio_loop trim fmt z2 st2 w2)"
    by (subst readbio_loop.simps) (simp add: nx Err_def)
  have step: "\<exists>z' st' w'. readbio_loop trim fmt z st w = Inr (z', st', w')
      \<and> Refs w' = Refs w2 @ first_wins seen2 (pending_refs (ref st2) ts)
      \<and> Members w' = Members w2"
    if "readbio_body trim fmt (token_type t) z1 st w = Inr (Continue (z2, st2, w2))"
      and "unread z2 = unread z1" and "err z2 = err z1" and "dom (refsSeen st2) = set seen2"
    for z2 st2 w2 seen2
  proof -
    from Cons.IH[of z2 st2 seen2 w2] that nx
    obtain z' st' w' where "readbio_loop trim fmt z2 st2 w2 = Inr (z', st', w')"
       "Refs w' = Refs w2 @ first_wins seen2 (pending_refs (ref st2) ts)"
       "Members w' = Members w2"
      by auto
    then show ?thesis unfolding go that(1) by simp
  qed
  show ?case
  proof (cases t)
    case (Text s)
    from readbio_body_text[of z1 s trim fmt st w] nx Text
    obtain z2 st2 w2 where b: "readbio_body trim fmt (token_type t) z1 st w = Inr (Continue (z2, st2, w2))"
      "unread z2 = unread z1" "err z2 = err z1" "Members w2 = Members w"
      and e: "if s = [] then ref st2 = ref st \<and> refsSeen st2 = refsSeen st \<and> Refs w2 = Refs w
         else ref st2 = [] \<and>
           (if ref st \<noteq> [] \<and> refsSeen st s = None
            then refsSeen st2 = (refsSeen st)(s \<mapsto> ref st)
               \<and> Refs w2 = Refs w @ [\<lparr>Ref.Name = s, Reference = ref st\<rparr>]
            else refsSeen st2 = refsSeen st \<and> Refs w2 = Refs w)"
      by auto
    have mem: "refsSeen st s = None \<longleftrightarrow> s \<notin> set seen"
      using Cons.prems(3) by (metis domIff)
    show ?thesis
    proof (cases "s \<noteq> [] \<and> ref st \<noteq> [] \<and> s \<notin> set seen")
      case True
      with e mem have "dom (refsSeen st2) = set (s # seen)"
        using Cons.prems(3) by auto
      from step[OF b(1,2,3) this] True e mem b(4) Text show ?thesis by auto
    next
      case False
      with e mem have "dom (refsSeen st2) = set seen"
        using Cons.prems(3) by (auto split: if_splits)
      from step[OF b(1,2,3) this] False e mem b(4) Text show ?thesis
        by (auto split: if_splits)
    qed
  next
    case (StartTag n as)
    from readbio_body_start[of z1 n as trim fmt st w] nx StartTag
    obtain z2 st2 where b: "readbio_body trim fmt (token_type t) z1 st w = Inr (Continue (z2, st2, w))"
      "unread z2 = unread z1" "err z2 = err z1" "refsSeen st2 = refsSeen st"
      "ref st2 = (if n = ''a'' then (case map_of as ''href'' of Some h \<Rightarrow> h | None \<Rightarrow> ref st)
                   else ref st)"
      by auto
    have "dom (refsSeen st2) = set seen" using b(4) Cons.prems(3) by simp
    from step[OF b(1,2,3) this] b(5) StartTag show ?thesis by auto
  next
    case (EndTag n)
    from readbio_body_end[of z1 n trim fmt st w] nx EndTag
    obtain z2 st2 w2 where b: "readbio_body trim fmt (token_type t) z1 st w =
         Inr (if n = ''div'' then Break (z2, st2, w2) else Continue (z2, st2, w2))"
      "unread z2 = unread z1" "err z2 = err z1"
      "ref st2 = ref st" "refsSeen st2 = refsSeen st" "Refs w2 = Refs w" "Members w2 = Members w"
      by auto
    show ?thesis
    proof (cases "n = ''div''")
      case True
      then show ?thesis unfolding go using b EndTag by simp
    next
      case False
      have "dom (refsSeen st2) = set seen" using b(5) Cons.prems(3) by simp
      from step[OF _ b(2,3) this] b False EndTag show ?thesis by auto
    qed
  next
    case (SelfClosingTag n as)
    from readbio_body_selfclosing[of z1 trim fmt st w] nx SelfClosingTag
    obtain z2 st2 where b: "readbio_body trim fmt (token_type t) z1 st w = Inr (Continue (z2, st2, w))"
      "unread z2 = unread z1" "err z2 = err z1" "ref st2 = ref st" "refsSeen st2 = refsSeen st"
      by auto
    have "dom (refsSeen st2) = set seen" using b(5) Cons.prems(3) by simp
    from step[OF b(1,2,3) this] b(4) SelfClosingTag show ?thesis by auto
  next
    case (Comment s)
    have b: "readbio_body trim fmt (token_type t) z1 st w = Inr (Continue (z1, st, w))"
      using readbio_body_other[of CommentToken z1] nx Comment by simp
    from step[OF b refl refl Cons.prems(3)] Comment show ?thesis by auto
  next
    case (Doctype s)
    have b: "readbio_body trim fmt (token_type t) z1 st w = Inr (Continue (z1, st, w))"
      using readbio_body_other[of DoctypeToken z1] nx Doctype by simp
    from step[OF b refl refl Cons.prems(3)] Doctype show ?thesis by auto
  qed
qed


lemma first_wins_names:
  "Ref.Name ` set (first_wins seen ps) = {s. \<exists>h. (s, h) \<in> set ps \<and> h \<noteq> []} - set seen"
  by (induction seen ps rule: first_wins.induct) auto

lemma first_wins_distinct:
  "distinct (map Ref.Name (first_wins seen ps))"
proof (induction seen ps rule: first_wins.induct)
  case (1 seen)
  show ?case by simp
next
  case (2 seen s h ps)
  have "s \<notin> Ref.Name ` set (first_wins (s # seen) ps)"
    unfolding first_wins_names by simp
  with 2 show ?case by auto
qed

lemma map_of_filter_key:
  "(\<And>h. P (k, h) = Q (k, h)) \<Longrightarrow> map_of (filter P ps) k = map_of (filter Q ps) k"
  by (induction ps) auto

lemma first_wins_first:
  "r \<in> set (first_wins seen ps) \<Longrightarrow>
   map_of (filter (\<lambda>(s, h). h \<noteq> [] \<and> s \<notin> set seen) ps) (Ref.Name r) = Some (Reference r)"
proof (induction seen ps rule: first_wins.induct)
  case (1 seen)
  then show ?case by simp
next
  case (2 seen s h ps)
  show ?case
  proof (cases "h = [] \<or> s \<in> set seen")
    case True
    with 2 show ?thesis by auto
  next
    case False
    show ?thesis
    proof (cases "r = \<lparr>Ref.Name = s, Reference = h\<rparr>")
      case True
      with False show ?thesis by simp
    next
      case neq: False
      with False "2.prems" have in': "r \<in> set (first_wins (s # seen) ps)" by simp
      then have "Ref.Name r \<in> Ref.Name ` set (first_wins (s # seen) ps)" by (rule imageI)
      then have ne: "Ref.Name r \<noteq> s" unfolding first_wins_names by auto
      from "2.IH"(2)[OF False in']
      have "map_of (filter (\<lambda>(s', h). h \<noteq> [] \<and> s' \<notin> set (s # seen)) ps) (Ref.Name r) =
            Some (Reference r)" .
      moreover have "map_of (filter (\<lambda>(s', h). h \<noteq> [] \<and> s' \<notin> set (s # seen)) ps) (Ref.Name r) =
            map_of (filter (\<lambda>(s', h). h \<noteq> [] \<and> s' \<notin> set seen) ps) (Ref.Name r)"
        using ne by (intro map_of_filter_key) auto
      ultimately show ?thesis using False ne by simp
    qed
  qed
qed

text \<open>
  Claim C6, amended. One pass of the Biography loop, started as the extractor starts it at a
  content wrapper, never fails and appends to the references exactly \<open>first_wins\<close> of the
  section's texts with their pending targets: the appended entries have pairwise different
  display texts, there is an entry for every text that was read with a target pending, and
  the target of an entry is the one pending at the first occurrence of its text that had one.
  Entries of earlier sections are kept as they are.
\<close>

theorem readbio_loop_first_wins:
  assumes "err z = None"
  shows "\<exists>z' st' w'. readbio_loop trim fmt z bio_init w = Inr (z', st', w')
      \<and> Refs w' = Refs w @ first_wins [] (pending_refs [] (unread z))
      \<and> distinct (map Ref.Name (first_wins [] (pending_refs [] (unread z))))
      \<and> Ref.Name ` set (first_wins [] (pending_refs [] (unread z))) =
          {s. \<exists>h. (s, h) \<in> set (pending_refs [] (unread z)) \<and> h \<noteq> []}
      \<and> (\<forall>r \<in> set (first_wins [] (pending_refs [] (unread z))).
            map_of (filter (\<lambda>(s, h). h \<noteq> []) (pending_refs [] (unread z))) (Ref.Name r) =
            Some (Reference r))"
proof -
  have "dom (refsSeen bio_init) = set []" by (simp add: bio_init_def)
  from readbio_loop_refs[OF assms refl this, of trim fmt w]
  obtain z' st' w' where "readbio_loop trim fmt z bio_init w = Inr (z', st', w')"
     "Refs w' = Refs w @ first_wins [] (pending_refs [] (unread z))"
    by (auto simp: bio_init_def)
  moreover have "\<forall>r \<in> set (first_wins [] (pending_refs [] (unread z))).
            map_of (filter (\<lambda>(s, h). h \<noteq> []) (pending_refs [] (unread z))) (Ref.Name r) =
            Some (Reference r)"
    using first_wins_first[of _ "[]" "pending_refs [] (unread z)"] by simp
  ultimately show ?thesis
    using first_wins_distinct[of "[]"] first_wins_names[of "[]"] by auto
qed


theorem readbio_loop_first_wins_witness:
  "err (NewTokenizer [StartTag ''p'' [], Text ''With '',
          StartTag ''a'' [(''class'', ''x''), (''href'', ''/music/Ian+MacKaye'')], Text ''Ian'', EndTag ''a'',
          Text '' and '', StartTag ''a'' [(''href'', ''/music/Ian+Svenonius'')], Text ''Ian'', EndTag ''a'',
          StartTag ''a'' [(''href'', ''/music/Guy'')], Text ''Guy'', EndTag ''a'',
          EndTag ''p'', EndTag ''div'', Text ''after''] EOF) = None
   \<and> (\<exists>z' st' w'. readbio_loop TrimSpace_ascii (\<lambda>s. s)
         (NewTokenizer [StartTag ''p'' [], Text ''With '',
          StartTag ''a'' [(''class'', ''x''), (''href'', ''/music/Ian+MacKaye'')], Text ''Ian'', EndTag ''a'',
          Text '' and '', StartTag ''a'' [(''href'', ''/music/Ian+Svenonius'')], Text ''Ian'', EndTag ''a'',
          StartTag ''a'' [(''href'', ''/music/Guy'')], Text ''Guy'', EndTag ''a'',
          EndTag ''p'', EndTag ''div'', Text ''after''] EOF) bio_init new_Wiki = Inr (z', st', w')
       \<and> Refs w' = [\<lparr>Ref.Name = ''Ian'', Reference = ''/music/Ian+MacKaye''\<rparr>,
                    \<lparr>Ref.Name = ''Guy'', Reference = ''/music/Guy''\<rparr>])"
  using readbio_loop_first_wins [of "NewTokenizer [StartTag ''p'' [], Text ''With '',
          StartTag ''a'' [(''class'', ''x''), (''href'', ''/music/Ian+MacKaye'')], Text ''Ian'', EndTag ''a'',
          Text '' and '', StartTag ''a'' [(''href'', ''/music/Ian+Svenonius'')], Text ''Ian'', EndTag ''a'',
          StartTag ''a'' [(''href'', ''/music/Guy'')], Text ''Guy'', EndTag ''a'',
          EndTag ''p'', EndTag ''div'', Text ''after''] EOF" TrimSpace_ascii "\<lambda>s. s" new_Wiki]
  by (auto simp add: NewTokenizer_def new_Wiki_def)

text \<open>
  The claim as stated fails in two ways. The set of seen texts is created anew for every
  content wrapper, so a page with two of them records a display text once in each: two entries
  for one text. And an anchor without \<^verbatim>\<open>href\<close> leaves no target pending, so a text whose
  first occurrence is in such an anchor is recorded with the target of a later occurrence.
\<close>

theorem readWiki_refs_counterexample:
  "map_sum id (\<lambda>(z, s, w). Refs w)
     (readWiki_loop TrimSpace_ascii (\<lambda>s. s)
        (NewTokenizer
           [StartTag ''div'' [(''class'', ''wiki-content'')],
            StartTag ''a'' [(''href'', ''/music/Ian+MacKaye'')], Text ''Ian'', EndTag ''a'',
            EndTag ''div'',
            StartTag ''div'' [(''class'', ''wiki-content'')],
            StartTag ''a'' [(''href'', ''/music/Ian+Svenonius'')], Text ''Ian'', EndTag ''a'',
            EndTag ''div''] EOF) False new_Wiki) =
     Inr [\<lparr>Ref.Name = ''Ian'', Reference = ''/music/Ian+MacKaye''\<rparr>,
          \<lparr>Ref.Name = ''Ian'', Reference = ''/music/Ian+Svenonius''\<rparr>]
   \<and> map_sum id (\<lambda>(z, s, w). Refs w)
     (readWiki_loop TrimSpace_ascii (\<lambda>s. s)
        (NewTokenizer
           [StartTag ''div'' [(''class'', ''wiki-content'')],
            StartTag ''a'' [(''name'', ''top'')], Text ''Ian'', EndTag ''a'',
            StartTag ''a'' [(''href'', ''/music/Ian+Svenonius'')], Text ''Ian'', EndTag ''a'',
            EndTag ''div''] EOF) False new_Wiki) =
     Inr [\<lparr>Ref.Name = ''Ian'', Reference = ''/music/Ian+Svenonius''\<rparr>]"
  by code_simp

subsection \<open>The sequential collector\<close>

lemma collect_loop_find:
  "collect_loop pg i lim requested r =
     (case find (\<lambda>k. isl (pg k)) [i..lim] of
        None \<Rightarrow> (requested @ [i..lim], Inr (r @ concat (map (\<lambda>k. projr (pg k)) [i..lim])))
      | Some k \<Rightarrow>
          (requested @ [i..k], Inl (Error (''read_similar_artists: '' @ error_msg (projl (pg k))))))"
proof (induction pg i lim requested r rule: collect_loop.induct)
  case (1 pg i lim requested r)
  show ?case
  proof (cases "i \<le> lim")
    case False
    then show ?thesis by (subst collect_loop.simps) simp
  next
    case True
    then have u: "[i..lim] = i # [i + 1..lim]" by (simp add: upto_rec1)
    show ?thesis
    proof (cases "pg i")
      case (Inl e)
      then show ?thesis using True
        by (subst collect_loop.simps) (simp add: u)
    next
      case (Inr similar')
      have ge: "\<And>k. find (\<lambda>k. isl (pg k)) [i + 1..lim] = Some k \<Longrightarrow> i < k"
        by (auto simp: find_Some_iff)
      have "\<And>k. i < k \<Longrightarrow> [i..k] = i # [i + 1..k]" by (simp add: upto_rec1)
      with "1.IH"[OF True Inr] Inr True ge show ?thesis
        by (subst collect_loop.simps) (auto simp: u split: option.splits)
    qed
  qed
qed

text \<open>
  Claim C9. With the page count and the offset in the range of the machine integers, the
  sequential collector requests the pages \<open>offset+1, ..., offset+pages\<close> in increasing order
  up to the first one whose fetch or parse fails: when none fails it has requested all of them
  and returns the concatenation of their lists in that order; when page \<open>k\<close> is the first
  to fail it has requested the pages up to \<open>k\<close> and no later one, and returns no list but
  that page's error, with the collector's prefix on its message.
\<close>

theorem readSimilarArtists_pages:
  assumes "in_int_range (1 + offset)" and "in_int_range (pages + offset)"
    and "in_int_range (pages + offset + 1)"
  shows "readSimilarArtists env bandName pages offset =
     (case find (\<lambda>k. isl (readSimilarArtistsPage env bandName k)) [offset + 1..offset + pages] of
        None \<Rightarrow>
          ([offset + 1..offset + pages],
           Inr (concat (map (\<lambda>k. projr (readSimilarArtistsPage env bandName k))
                         [offset + 1..offset + pages])))
      | Some k \<Rightarrow>
          ([offset + 1..k],
           Inl (Error (''read_similar_artists: ''
                  @ error_msg (projl (readSimilarArtistsPage env bandName k))))))"
proof -
  have a: "1 + offset = offset + 1" "pages + offset = offset + pages" by simp_all
  show ?thesis
    unfolding readSimilarArtists_def collect_loop_find a by (simp split: option.splits)
qed


lemma example_site_pages:
  "readSimilarArtistsPage (example_site True) ''Fugazi'' 1 = Inr first_page"
  "readSimilarArtistsPage (example_site True) ''Fugazi'' 2 = Inr [''Jawbreaker'']"
  "readSimilarArtistsPage (example_site True) ''Fugazi'' 3 =
     Inl (Error ''read_similar_artists: page 3: http_get: context deadline exceeded'')"
  "readSimilarArtistsPage (example_site True) ''Fugazi'' 4 = Inr []"
  by code_simp+

lemma upto_1_4: "[1..4] = [1, 2, 3, 4 :: int]" "[1..2] = [1, 2 :: int]" "[1..3] = [1, 2, 3 :: int]"
  by code_simp+

theorem readSimilarArtists_pages_witness:
  "in_int_range (1 + 0) \<and> in_int_range (2 + 0) \<and> in_int_range (2 + 0 + 1)
   \<and> in_int_range (4 + 0) \<and> in_int_range (4 + 0 + 1)
   \<and> readSimilarArtists (example_site True) ''Fugazi'' 2 0 =
        ([1, 2], Inr (first_page @ [''Jawbreaker'']))
   \<and> readSimilarArtists (example_site True) ''Fugazi'' 4 0 =
        ([1, 2, 3],
         Inl (Error ''read_similar_artists: read_similar_artists: page 3: http_get: context deadline exceeded''))"
  using readSimilarArtists_pages [of 0 2 "example_site True" "''Fugazi''"]
    readSimilarArtists_pages [of 0 4 "example_site True" "''Fugazi''"]
  by (simp add: in_int_range_def example_site_pages upto_1_4 cong: option.case_cong)


subsection \<open>The page that is past the end\<close>

lemma returned_stays:
  assumes "step page pages offset ev s = Some s'" and "i < length (workers s)"
    and "workers s ! i = Returned"
  shows "workers s' ! i = Returned \<and> length (workers s') = length (workers s) \<and> ev \<noteq> Claim i"
proof (cases ev)
  case (Claim j)
  with assms have j: "j < length (workers s)" "workers s ! j = Ready" "s' = claim page pages offset j s"
    by (auto split: if_splits)
  then have "j \<noteq> i" using assms(3) by auto
  with j assms(2,3) Claim show ?thesis
    by (auto simp: claim_def Let_def split: sum.splits)
next
  case (SendError j)
  with assms obtain e where j: "j < length (workers s)" "workers s ! j = SendingErr e"
      "s' = s\<lparr>errC := errC s @ [e], workers := (workers s)[j := Ready]\<rparr>"
    by (auto split: if_splits worker.splits)
  then have "j \<noteq> i" using assms(3) by auto
  with j assms(2,3) SendError show ?thesis by auto
next
  case RecvError
  with assms show ?thesis by (auto split: if_splits list.splits)
next
  case (RecvOut j)
  with assms obtain p a where j: "j < length (workers s)" "workers s ! j = SendingOut p a"
      "s' = receive j p a s"
    by (auto split: if_splits worker.splits)
  then have "j \<noteq> i" using assms(3) by auto
  with j assms(2,3) RecvOut show ?thesis
    by (auto simp: receive_def Let_def split: sum.splits)
next
  case Done
  with assms show ?thesis by (auto split: if_splits)
qed

lemma returned_for_good:
  "run page pages offset es s = Some s' \<Longrightarrow> i < length (workers s) \<Longrightarrow>
   workers s ! i = Returned \<Longrightarrow> workers s' ! i = Returned \<and> Claim i \<notin> set es"
proof (induction es arbitrary: s)
  case Nil
  then show ?case by simp
next
  case (Cons ev es)
  then obtain s1 where s1: "step page pages offset ev s = Some s1"
      "run page pages offset es s1 = Some s'"
    by (auto split: option.splits)
  from returned_stays[OF s1(1) Cons.prems(2,3)] Cons.IH[OF s1(2)] Cons.prems(2) show ?case by auto
qed

text \<open>
  Claim C8. When the request for a page succeeds with status 200 and the \<^verbatim>\<open>page\<close> parameter
  of the URL that was served differs from the decimal form of the requested number,
  \<^verbatim>\<open>readSimilarArtistsPage\<close> returns the empty list and no error, whatever the body of the
  response holds. In the concurrent collector a worker that claims this page returns, and
  in every continuation of the run it stays returned and claims no further page. The empty
  list is the only result of a page that ends a worker's claiming: a claim makes a worker
  return only when the number is beyond \<open>pages + offset\<close> or the page's result is the empty
  list.
\<close>

theorem readSimilarArtistsPage_overflow:
  assumes "bandName \<noteq> []"
    and "NewRequest env (similarArtistsPageURL bandName pageNum) = None"
    and "Do env (similarArtistsPageURL bandName pageNum) = Inr resp"
    and "StatusCode resp = StatusOK"
    and "query_Get (Query resp) ''page'' \<noteq> Itoa pageNum"
  shows "readSimilarArtistsPage env bandName pageNum = Inr []
    \<and> (\<forall>pages offset i s.
          outcome s = None \<and> i < length (workers s) \<and> workers s ! i = Ready
            \<and> Add1 (pageCount s) = pageNum \<longrightarrow>
          (\<exists>s'. step (readSimilarArtistsPage env bandName) pages offset (Claim i) s = Some s'
             \<and> workers s' ! i = Returned
             \<and> (\<forall>es s''. run (readSimilarArtistsPage env bandName) pages offset es s' = Some s''
                   \<longrightarrow> workers s'' ! i = Returned \<and> Claim i \<notin> set es)))
    \<and> (\<forall>page pages offset i s s'.
          step page pages offset (Claim i) s = Some s' \<and> workers s' ! i = Returned \<longrightarrow>
          pages + offset < Add1 (pageCount s) \<or> page (Add1 (pageCount s)) = Inr [])"
proof (intro conjI allI impI)
  show r: "readSimilarArtistsPage env bandName pageNum = Inr []"
    using assms by (simp add: readSimilarArtistsPage_def)
  fix pages offset :: int and i :: nat and s :: async_state
  assume a: "outcome s = None \<and> i < length (workers s) \<and> workers s ! i = Ready
            \<and> Add1 (pageCount s) = pageNum"
  let ?s' = "claim (readSimilarArtistsPage env bandName) pages offset i s"
  have st: "step (readSimilarArtistsPage env bandName) pages offset (Claim i) s = Some ?s'"
    using a by simp
  have w: "workers ?s' ! i = Returned" "i < length (workers ?s')"
    using a r by (simp_all add: claim_def Let_def)
  have "\<forall>es s''. run (readSimilarArtistsPage env bandName) pages offset es ?s' = Some s''
          \<longrightarrow> workers s'' ! i = Returned \<and> Claim i \<notin> set es"
    using returned_for_good[OF _ w(2,1)] by blast
  with st w show "\<exists>s'. step (readSimilarArtistsPage env bandName) pages offset (Claim i) s = Some s'
             \<and> workers s' ! i = Returned
             \<and> (\<forall>es s''. run (readSimilarArtistsPage env bandName) pages offset es s' = Some s''
                   \<longrightarrow> workers s'' ! i = Returned \<and> Claim i \<notin> set es)"
    by blast
next
  fix page :: "int \<Rightarrow> error + string list" and pages offset :: int and i :: nat
    and s s' :: async_state
  assume "step page pages offset (Claim i) s = Some s' \<and> workers s' ! i = Returned"
  then show "pages + offset < Add1 (pageCount s) \<or> page (Add1 (pageCount s)) = Inr []"
    by (auto simp: claim_def Let_def split: if_splits sum.splits)
qed

lemma example_site_page5:
  "Do (example_site True) (similarArtistsPageURL ''Fugazi'' 5) = Inr (served ''1'' first_page)"
  "query_Get (Query (served ''1'' first_page)) ''page'' \<noteq> Itoa 5"
  "StatusCode (served ''1'' first_page) = StatusOK"
  by code_simp+

theorem readSimilarArtistsPage_overflow_witness:
  "readSimilarArtistsPage (example_site True) ''Fugazi'' 5 = Inr []
   \<and> (\<exists>s'. step (readSimilarArtistsPage (example_site True) ''Fugazi'') 8 0 (Claim 1)
              ((async_init 2 8)\<lparr>pageCount := 4\<rparr>) = Some s'
         \<and> workers s' ! 1 = Returned)"
proof -
  have n: "NewRequest (example_site True) (similarArtistsPageURL ''Fugazi'' 5) = None"
    by (simp add: example_site_def)
  note t = readSimilarArtistsPage_overflow [of "''Fugazi''" "example_site True" 5, OF _ n example_site_page5(1,3,2)]
  have s: "outcome ((async_init 2 8)\<lparr>pageCount := 4\<rparr>) = None
      \<and> 1 < length (workers ((async_init 2 8)\<lparr>pageCount := 4\<rparr>))
      \<and> workers ((async_init 2 8)\<lparr>pageCount := 4\<rparr>) ! 1 = Ready
      \<and> Add1 (pageCount ((async_init 2 8)\<lparr>pageCount := 4\<rparr>)) = 5"
    by (simp add: async_init_def pageSize_def Add1_def eval_nat_numeral)
  from t s show ?thesis by blast
qed

subsection \<open>The countdown of the tags extractor\<close>

lemma readTags_body_break:
  "readTags_body tok z st = Inr (Break (z', st')) \<Longrightarrow> numEntites st' = 0"
  by (auto simp: readTags_body_def readTags_end_def readTags_start_def Let_def
      split: if_splits sum.splits prod.splits)

lemma readTags_loop_ends:
  "readTags_loop z st = Inr (z', st') \<Longrightarrow> err z' \<noteq> None \<or> numEntites st' = 0"
proof (induction z st rule: readTags_loop.induct)
  case (1 z st)
  obtain tok z1 where nx: "Next z = (tok, z1)" by (cases "Next z") auto
  show ?case
  proof (cases "Err z1 \<noteq> None")
    case True
    with 1(2) nx show ?thesis by (subst (asm) readTags_loop.simps) (auto simp: Err_def)
  next
    case False
    show ?thesis
    proof (cases "readTags_body tok z1 st")
      case (Inl e)
      with 1(2) nx False show ?thesis by (subst (asm) readTags_loop.simps) auto
    next
      case (Inr fl)
      show ?thesis
      proof (cases fl)
        case (Break x)
        with 1(2) nx False Inr readTags_body_break[of tok z1 st z' st'] show ?thesis
          by (subst (asm) readTags_loop.simps) auto
      next
        case (Continue x)
        obtain z2 st2 where x: "x = (z2, st2)" by (cases x) auto
        have "readTags_loop z2 st2 = Inr (z', st')"
          using 1(2) nx False Inr Continue x by (subst (asm) readTags_loop.simps) auto
        from "1.IH"[OF nx[symmetric] _ Inr Continue x[symmetric] this] False
        show ?thesis by simp
      qed
    qed
  qed
qed

text \<open>
  Claim C5 at a page with both lists and a footer behind them. The countdown starts at three
  and is at one when both lists have closed, so the pass does not end there: it reads the
  footer too and stops at the end of the page, with nothing left unread.
\<close>

theorem readTags_reads_to_end:
  "map_sum id (\<lambda>(z, st). (unread z, err z, numEntites st, tags st, tags_state.similar st))
     (readTags_loop
        (NewTokenizer
           [StartTag ''ol'' [(''class'', ''big-tags'')],
            StartTag ''a'' [(''class'', ''link-block-target'')], Text ''punk'', EndTag ''a'',
            EndTag ''ol'',
            StartTag ''ol'' [(''class'', ''similar-items-sidebar'')],
            StartTag ''a'' [(''class'', ''link-block-target'')], Text ''Unwound'', EndTag ''a'',
            EndTag ''ol'',
            StartTag ''p'' [], Text ''footer'', EndTag ''p''] EOF)
        tags_init) =
     Inr ([], Some EOF, 1, [''punk''], [''Unwound''])"
  by code_simp

subsection \<open>The concurrent collector at concrete schedules\<close>

text \<open>
  Claim C2 on the broken site with two workers and three pages. Pages 1 and 2 are delivered,
  the worker that fetched page 3 puts its error into the buffer of \<^verbatim>\<open>errC\<close> and returns
  with its next claim, and so does the other worker. The completion signal and the buffered
  error are then both ready; when the caller's \<^verbatim>\<open>select\<close> takes the signal the call returns
  the eleven artists and no error. When it takes the error first the call fails as claimed.
\<close>

theorem async_error_lost:
  "readSimilarArtistsPage (example_site True) ''Fugazi'' 3 =
     Inl (Error ''read_similar_artists: page 3: http_get: context deadline exceeded'')
   \<and> readSimilarArtistsAsync (example_site True) ''Fugazi'' 2 3 0
       [Claim 0, Claim 1, RecvOut 0, RecvOut 1, Claim 0, SendError 0, Claim 0, Claim 1, Done] =
     Some (Inr (first_page @ [''Jawbreaker'']))
   \<and> readSimilarArtistsAsync (example_site True) ''Fugazi'' 2 3 0
       [Claim 0, Claim 1, RecvOut 0, RecvOut 1, Claim 0, SendError 0, Claim 0, Claim 1,
        RecvError, Done] =
     Some (Inl (Error
       ''read_similar_artists: read_similar_artists: page 3: http_get: context deadline exceeded''))"
  by code_simp

text \<open>
  A page number within the page count has its slot in the buffer: the write of its items
  stays within bounds.
\<close>

lemma copy_page_within:
  assumes "1 \<le> p" and "p \<le> pages" and "length r = nat (pageSize * pages)"
  shows "\<exists>r'. copy_page r p artists = Inr r' \<and> length r' = length r"
proof -
  have "p * 10 \<le> pages * 10" using assms(2) by simp
  then have "0 \<le> (p - 1) * pageSize \<and> (p - 1) * pageSize \<le> p * pageSize
      \<and> p * pageSize \<le> int (length r)"
    using assms by (simp add: pageSize_def)
  moreover from this have "nat ((p - 1) * pageSize) + nat (p * pageSize - (p - 1) * pageSize) \<le> length r"
    by linarith
  ultimately show ?thesis
    by (auto simp: copy_page_def Let_def min_def)
qed

text \<open>
  Claim C3 on the site with one page asked for and offset one: the counter hands out the
  page numbers 1 and 2, page 2 exists and is not empty, and its slot \<open>ret[10:20]\<close> lies
  behind the end of the buffer of length 10: the caller panics.
\<close>

theorem async_copy_out_of_range:
  "readSimilarArtistsPage (example_site False) ''Fugazi'' 2 = Inr [''Jawbreaker'']
   \<and> copy_page (replicate (nat (pageSize * 1)) []) 2 [''Jawbreaker''] =
       Inl (Panic ''slice bounds out of range'')
   \<and> readSimilarArtistsAsync (example_site False) ''Fugazi'' 2 1 1 [Claim 0, Claim 1, RecvOut 1] =
       Some (Inl (Panic ''slice bounds out of range''))"
  by code_simp

text \<open>
  Claim C4 on the site, whose listing has two pages, with three pages asked for and offset
  two. The sequential collector requests the pages 3, 4 and 5, all past the end, and returns
  the empty list; the concurrent collector starts its counter at page 1 whatever the offset
  and returns the eleven artists of the pages 1 and 2.
\<close>

theorem async_offset_differs:
  "readSimilarArtists (example_site False) ''Fugazi'' 3 2 = ([3, 4, 5], Inr [])
   \<and> readSimilarArtistsAsync (example_site False) ''Fugazi'' 2 3 2
       [Claim 0, Claim 1, RecvOut 1, RecvOut 0, Claim 0, Claim 1, Done] =
     Some (Inr (first_page @ [''Jawbreaker'']))"
  by code_simp

end
